theory Spec2Isabelle
  imports Main "HOL-Library.Char_ord" "HOL-Library.List_Lexorder"
begin

section \<open>Strings\<close>

text \<open>
  A JavaScript string is a sequence of code units. The model uses \<^typ>\<open>string\<close> and
  reads each \<^typ>\<open>char\<close> as a code unit below 256 (the Latin-1 range); scripts and labels
  with code units above that range are outside the model.
\<close>

definition is_space :: "char \<Rightarrow> bool" where
  \<comment> \<open>The code units below 256 that \<open>String.prototype.trim\<close> removes: TAB, LF, VT, FF, CR,
      SPACE and NO-BREAK SPACE.\<close>
  "is_space c \<longleftrightarrow> c \<in> set [CHR 0x09, CHR 0x0A, CHR 0x0B, CHR 0x0C, CHR 0x0D, CHR 0x20, CHR 0xA0]"

definition trim :: "string \<Rightarrow> string" where
  "trim s = rev (dropWhile is_space (rev (dropWhile is_space s)))"

section \<open>Statement splitter\<close>

text \<open>
  The local variables of \<open>splitSqlStatements\<close> (driver.ts, lines 46 to 51); the loop index
  is the position in the remaining input.
\<close>

record scan_state =
  statements :: "string list"
  current :: string
  inSingleQuote :: bool
  inDoubleQuote :: bool
  inLineComment :: bool
  inBlockComment :: bool

definition scan_init :: scan_state where
  "scan_init = \<lparr>statements = [], current = [], inSingleQuote = False, inDoubleQuote = False,
                inLineComment = False, inBlockComment = False\<rparr>"

text \<open>
  The body of the \<open>for\<close> loop (lines 53 to 129). \<open>ch\<close> is \<open>sqlText[i]\<close>, \<open>rest\<close> is the input
  from \<open>i + 1\<close> on and \<open>next\<close> is \<open>sqlText[i + 1]\<close>, undefined (\<open>None\<close>) at the end of the
  input. A branch that does \<open>i++\<close> continues with \<open>tl rest\<close>.
\<close>

fun scan :: "scan_state \<Rightarrow> string \<Rightarrow> scan_state" where
  "scan s [] = s"
| "scan s (ch # rest) =
    (let next = (case rest of [] \<Rightarrow> None | n # _ \<Rightarrow> Some n) in
     if inLineComment s then
       scan (s\<lparr>current := current s @ [ch],
               inLineComment := (if ch = CHR 0x0A then False else inLineComment s)\<rparr>) rest
     else if inBlockComment s then
       (if ch = CHR ''*'' \<and> next = Some (CHR ''/'') then
          scan (s\<lparr>current := current s @ [ch, CHR ''/''], inBlockComment := False\<rparr>) (tl rest)
        else scan (s\<lparr>current := current s @ [ch]\<rparr>) rest)
     else if inSingleQuote s then
       (if ch = CHR 0x27 \<and> next = Some (CHR 0x27) then
          scan (s\<lparr>current := current s @ [ch, CHR 0x27]\<rparr>) (tl rest)
        else if ch = CHR 0x27 then
          scan (s\<lparr>current := current s @ [ch], inSingleQuote := False\<rparr>) rest
        else scan (s\<lparr>current := current s @ [ch]\<rparr>) rest)
     else if inDoubleQuote s then
       (if ch = CHR 0x22 \<and> next = Some (CHR 0x22) then
          scan (s\<lparr>current := current s @ [ch, CHR 0x22]\<rparr>) (tl rest)
        else if ch = CHR 0x22 then
          scan (s\<lparr>current := current s @ [ch], inDoubleQuote := False\<rparr>) rest
        else scan (s\<lparr>current := current s @ [ch]\<rparr>) rest)
     else if ch = CHR ''-'' \<and> next = Some (CHR ''-'') then
       scan (s\<lparr>current := current s @ [ch, CHR ''-''], inLineComment := True\<rparr>) (tl rest)
     else if ch = CHR ''/'' \<and> next = Some (CHR ''*'') then
       scan (s\<lparr>current := current s @ [ch, CHR ''*''], inBlockComment := True\<rparr>) (tl rest)
     else if ch = CHR 0x27 then
       scan (s\<lparr>current := current s @ [ch], inSingleQuote := True\<rparr>) rest
     else if ch = CHR 0x22 then
       scan (s\<lparr>current := current s @ [ch], inDoubleQuote := True\<rparr>) rest
     else if ch = CHR '';'' then
       (let trimmed = trim (current s) in
        scan (s\<lparr>statements := (if trimmed \<noteq> [] then statements s @ [trimmed] else statements s),
                current := []\<rparr>) rest)
     else scan (s\<lparr>current := current s @ [ch]\<rparr>) rest)"

definition finish :: "scan_state \<Rightarrow> string list" where
  \<comment> \<open>Lines 131 to 133: the remaining accumulator, trimmed, is the last statement.\<close>
  "finish s = (let tail = trim (current s) in
               if tail \<noteq> [] then statements s @ [tail] else statements s)"

definition splitSqlStatements :: "string \<Rightarrow> string list" where
  "splitSqlStatements sqlText = finish (scan scan_init sqlText)"

definition normal_mode :: "scan_state \<Rightarrow> bool" where
  \<comment> \<open>None of the four region flags is set: the scanner is at the top level.\<close>
  "normal_mode s \<longleftrightarrow>
     \<not> inSingleQuote s \<and> \<not> inDoubleQuote s \<and> \<not> inLineComment s \<and> \<not> inBlockComment s"


fun has_pair :: "char \<Rightarrow> char \<Rightarrow> string \<Rightarrow> bool" where
  \<comment> \<open>\<open>has_pair a b t\<close>: the character \<open>a\<close> is directly followed by \<open>b\<close> somewhere in \<open>t\<close>.\<close>
  "has_pair a b (x # y # r) = ((x = a \<and> y = b) \<or> has_pair a b (y # r))"
| "has_pair a b _ = False"

definition inert :: "string \<Rightarrow> bool" where
  \<comment> \<open>The text does not start with a character that the scanner looks ahead for.\<close>
  "inert t = (case t of [] \<Rightarrow> True
              | c # _ \<Rightarrow> c \<notin> set [CHR ''-'', CHR ''*'', CHR ''/'', CHR 0x27, CHR 0x22])"

definition with_prefix :: "string list \<Rightarrow> scan_state \<Rightarrow> scan_state" where
  \<comment> \<open>The scanner state with the statements \<open>A\<close> already emitted before its own.\<close>
  "with_prefix A s = s\<lparr>statements := A @ statements s\<rparr>"

definition stmts_ok :: "string list \<Rightarrow> bool" where
  \<comment> \<open>Every statement is non-empty and trimmed.\<close>
  "stmts_ok xs \<longleftrightarrow> (\<forall>x\<in>set xs. x \<noteq> [] \<and> trim x = x)"

definition blank_state :: "scan_state \<Rightarrow> bool" where
  \<comment> \<open>At the top level, with only whitespace accumulated.\<close>
  "blank_state s \<longleftrightarrow> normal_mode s \<and> (\<forall>c\<in>set (current s). is_space c)"

section \<open>JavaScript values\<close>

text \<open>
  The values that reach the driver from parsed CLI output and from the connection settings.
  A number is kept as its decimal rendering (what \<open>String(n)\<close> returns): the driver only
  tests numbers for truthiness and puts them into text. An object is the list of its own
  enumerable properties in the order \<open>Object.keys\<close> reports them.
\<close>

datatype jsval =
    JUndefined
  | JNull
  | JBool bool
  | JNum string
  | JStr string
  | JArr "jsval list"
  | JObj "(string \<times> jsval) list"

fun truthy :: "jsval \<Rightarrow> bool" where
  "truthy JUndefined = False"
| "truthy JNull = False"
| "truthy (JBool b) = b"
| "truthy (JNum r) = (r \<noteq> ''0'' \<and> r \<noteq> ''NaN'')"
| "truthy (JStr s) = (s \<noteq> [])"
| "truthy (JArr _) = True"
| "truthy (JObj _) = True"

definition js_or :: "jsval \<Rightarrow> jsval \<Rightarrow> jsval" where
  \<comment> \<open>\<open>a || b\<close>\<close>
  "js_or a b = (if truthy a then a else b)"

definition nullish_or :: "jsval \<Rightarrow> jsval \<Rightarrow> jsval" where
  \<comment> \<open>\<open>a ?? b\<close>\<close>
  "nullish_or a b = (if a = JUndefined \<or> a = JNull then b else a)"

fun intercalate :: "string \<Rightarrow> string list \<Rightarrow> string" where
  \<comment> \<open>\<open>Array.prototype.join\<close> on an array of strings.\<close>
  "intercalate sep [] = []"
| "intercalate sep [x] = x"
| "intercalate sep (x # y # ys) = x @ sep @ intercalate sep (y # ys)"

fun to_str :: "jsval \<Rightarrow> string" where
  \<comment> \<open>The string a template literal puts in for the value.\<close>
  "to_str JUndefined = ''undefined''"
| "to_str JNull = ''null''"
| "to_str (JBool b) = (if b then ''true'' else ''false'')"
| "to_str (JNum r) = r"
| "to_str (JStr s) = s"
| "to_str (JArr xs) =
     intercalate '','' (map (\<lambda>x. if x = JUndefined \<or> x = JNull then [] else to_str x) xs)"
| "to_str (JObj _) = ''[object Object]''"

fun get_prop :: "jsval \<Rightarrow> string \<Rightarrow> jsval" where
  \<comment> \<open>\<open>item?.key\<close> for the data properties the driver reads; a missing property and a
      property of a value that is not an object are \<open>undefined\<close>.\<close>
  "get_prop (JObj kvs) k = (case map_of kvs k of Some v \<Rightarrow> v | None \<Rightarrow> JUndefined)"
| "get_prop _ k = JUndefined"

definition is_lower :: "char \<Rightarrow> bool" where
  "is_lower c \<longleftrightarrow> c \<in> set ''abcdefghijklmnopqrstuvwxyz''"

definition is_upper :: "char \<Rightarrow> bool" where
  "is_upper c \<longleftrightarrow> c \<in> set ''ABCDEFGHIJKLMNOPQRSTUVWXYZ''"

definition is_digit :: "char \<Rightarrow> bool" where
  "is_digit c \<longleftrightarrow> c \<in> set ''0123456789''"

definition upper_char :: "char \<Rightarrow> char" where
  "upper_char c =
     (case map_of (zip ''abcdefghijklmnopqrstuvwxyz'' ''ABCDEFGHIJKLMNOPQRSTUVWXYZ'') c of
        Some u \<Rightarrow> u | None \<Rightarrow> c)"

definition lower_char :: "char \<Rightarrow> char" where
  "lower_char c =
     (case map_of (zip ''ABCDEFGHIJKLMNOPQRSTUVWXYZ'' ''abcdefghijklmnopqrstuvwxyz'') c of
        Some l \<Rightarrow> l | None \<Rightarrow> c)"

definition toUpperCase :: "string \<Rightarrow> string" where
  \<comment> \<open>\<open>String.prototype.toUpperCase\<close> on ASCII letters and on sharp s (0xDF), the one code
      unit of the Latin-1 range whose upper case is made of ASCII letters. The other code
      units above 127 are copied as they are; they are not ASCII before or after the
      conversion.\<close>
  "toUpperCase s = concat (map (\<lambda>c. if c = CHR 0xDF then ''SS'' else [upper_char c]) s)"

definition toLowerCase :: "string \<Rightarrow> string" where
  \<comment> \<open>\<open>String.prototype.toLowerCase\<close> on ASCII letters; code units above 127 are copied as
      they are (none of them becomes an ASCII character).\<close>
  "toLowerCase s = map lower_char s"

fun show_nat :: "nat \<Rightarrow> string" where
  \<comment> \<open>The decimal rendering of an array index.\<close>
  "show_nat n = (if n < 10 then [''0123456789'' ! n]
                 else show_nat (n div 10) @ [''0123456789'' ! (n mod 10)])"

fun object_keys :: "jsval \<Rightarrow> string list option" where
  \<comment> \<open>\<open>Object.keys(v)\<close>; \<open>None\<close> is the TypeError raised for \<open>null\<close> and \<open>undefined\<close>.\<close>
  "object_keys JUndefined = None"
| "object_keys JNull = None"
| "object_keys (JObj kvs) = Some (map fst kvs)"
| "object_keys (JArr xs) = Some (map show_nat [0..<length xs])"
| "object_keys (JStr s) = Some (map show_nat [0..<length s])"
| "object_keys _ = Some []"

section \<open>The runtime under the driver\<close>

text \<open>
  What the driver calls but does not define: \<open>child_process.execFile\<close>, \<open>fs\<close>, \<open>path\<close>,
  \<open>process\<close>, \<open>JSON.parse\<close>, \<open>crypto.randomUUID\<close> and \<open>toAbsolutePath\<close> of the base driver
  are parameters of the model. The world \<open>'w\<close> is everything outside the driver that a
  subprocess or a file system call can read and change.
\<close>

datatype exec_result =
    ExecOk string
    \<comment> \<open>the promise resolves; the argument is \<open>stdout\<close>\<close>
  | ExecFail "string option" "string option" string
    \<comment> \<open>the promise rejects; \<open>error.stderr\<close> and \<open>error.stdout\<close> when they are strings, and
        \<open>error.message\<close>\<close>

datatype jserror = JSError (err_name: string) (err_message: string)

definition error_text :: "jserror \<Rightarrow> string" where
  \<comment> \<open>The text of \<open>error?.message || error\<close> once it is made a string: the message, or for
      an empty message what \<open>Error.prototype.toString\<close> gives, the name.\<close>
  "error_text e = (if err_message e \<noteq> [] then err_message e else err_name e)"

datatype event =
    EnvRead string
  | FsExists string
  | Spawn string "string list"
  | Mkdir string

record 'w sys =
  execFile :: "'w \<Rightarrow> string \<Rightarrow> string list \<Rightarrow> exec_result \<times> 'w"
  existsSync :: "'w \<Rightarrow> string \<Rightarrow> bool"
  mkdirSync :: "'w \<Rightarrow> string \<Rightarrow> jserror option \<times> 'w"
  env_var :: "string \<Rightarrow> string option"
  platform :: string
  toAbsolutePath :: "string \<Rightarrow> string"
  dirname :: "string \<Rightarrow> string"
  jsonParse :: "string \<Rightarrow> string + jsval"
  randomUUID :: "'w \<Rightarrow> string option \<times> 'w"
  clockId :: "'w \<Rightarrow> string \<times> 'w"

text \<open>
  \<open>jsonParse\<close> returns \<open>Inl\<close> with the message of the SyntaxError; \<open>randomUUID\<close> returns
  \<open>None\<close> when it throws; \<open>clockId\<close> is the string built from \<open>Date.now()\<close> and
  \<open>Math.random()\<close> in \<open>createResultId\<close>.
\<close>

record credentials =
  cred_id :: string
  database :: "string option"
  duckdbCliPath :: jsval
  duckdbPath :: jsval
  readOnlySetting :: jsval

record connection =
  databasePath :: string
  executablePath :: string
  readOnly :: bool

text \<open>
  The driver instance: the world it acts on, the cached connection (\<open>this.connection\<close>) and
  the trace of the calls it has made to the runtime, in order.
\<close>

record 'w driver =
  world :: 'w
  conn :: "connection option"
  trace :: "event list"

definition LEGACY_DEFAULT_DUCKDB_CLI_PATH_WINDOWS :: string where
  "LEGACY_DEFAULT_DUCKDB_CLI_PATH_WINDOWS =
     ''M:'' @ [CHR 0x5C] @ ''Programs'' @ [CHR 0x5C] @ ''duckdb'' @ [CHR 0x5C] @ ''duckdb.exe''"

definition DUCKDB_CLI_PATH_ENV :: string where
  "DUCKDB_CLI_PATH_ENV = ''DUCKDB_CLI_PATH''"

definition AUTO_EXECUTABLE_CANDIDATES :: "string \<Rightarrow> string list option" where
  "AUTO_EXECUTABLE_CANDIDATES p =
     (if p = ''win32'' then
        Some [''duckdb.exe'', LEGACY_DEFAULT_DUCKDB_CLI_PATH_WINDOWS,
              ''C:'' @ [CHR 0x5C] @ ''Program Files'' @ [CHR 0x5C] @ ''DuckDB'' @ [CHR 0x5C] @ ''duckdb.exe'',
              ''C:'' @ [CHR 0x5C] @ ''Program Files (x86)'' @ [CHR 0x5C] @ ''DuckDB'' @ [CHR 0x5C] @ ''duckdb.exe'']
      else if p = ''darwin'' then
        Some [''duckdb'', ''/opt/homebrew/bin/duckdb'', ''/usr/local/bin/duckdb'', ''/usr/bin/duckdb'']
      else if p = ''linux'' then
        Some [''duckdb'', ''/usr/local/bin/duckdb'', ''/usr/bin/duckdb'', ''/snap/bin/duckdb'']
      else None)"

definition set_add :: "'a \<Rightarrow> 'a list \<Rightarrow> 'a list" where
  \<comment> \<open>\<open>Set.prototype.add\<close> on a set kept as the list of its elements in insertion order.\<close>
  "set_add x xs = (if x \<in> set xs then xs else xs @ [x])"

definition isPathLike :: "string \<Rightarrow> bool" where
  "isPathLike candidate \<longleftrightarrow>
     list_ex (\<lambda>c. c = CHR 0x5C \<or> c = CHR ''/'') candidate
     \<or> (case candidate of a # b # _ \<Rightarrow> (is_lower a \<or> is_upper a) \<and> b = CHR '':'' | _ \<Rightarrow> False)"

definition getDatabase :: "'w sys \<Rightarrow> credentials \<Rightarrow> string" where
  "getDatabase sys cr =
     toAbsolutePath sys (case database cr of
                           Some d \<Rightarrow> if d \<noteq> [] then d else '':memory:''
                         | None \<Rightarrow> '':memory:'')"

definition getConfiguredExecutablePath :: "'w sys \<Rightarrow> credentials \<Rightarrow> string" where
  "getConfiguredExecutablePath sys cr =
     (let configuredPath = trim (to_str (js_or (js_or (duckdbCliPath cr) (duckdbPath cr)) (JStr [])))
      in if configuredPath = [] then []
         else if isPathLike configuredPath then toAbsolutePath sys configuredPath
         else configuredPath)"

definition getEnvironmentExecutablePath :: "'w sys \<Rightarrow> 'w driver \<Rightarrow> string \<times> 'w driver" where
  "getEnvironmentExecutablePath sys st =
     (let st1 = st\<lparr>trace := trace st @ [EnvRead DUCKDB_CLI_PATH_ENV]\<rparr>;
          envPath = trim (to_str (js_or (case env_var sys DUCKDB_CLI_PATH_ENV of
                                           Some v \<Rightarrow> JStr v | None \<Rightarrow> JUndefined) (JStr [])))
      in if envPath = [] then ([], st1)
         else if isPathLike envPath then (toAbsolutePath sys envPath, st1)
         else (envPath, st1))"

definition getAutoExecutableCandidates :: "'w sys \<Rightarrow> string list" where
  "getAutoExecutableCandidates sys =
     (let platformCandidates = (case AUTO_EXECUTABLE_CANDIDATES (platform sys) of
                                  Some cs \<Rightarrow> cs | None \<Rightarrow> [''duckdb''])
      in set_add (if platform sys = ''win32'' then ''duckdb.exe'' else ''duckdb'')
           (fold set_add platformCandidates []))"

definition validateExecutablePath ::
  "'w sys \<Rightarrow> string \<Rightarrow> 'w driver \<Rightarrow> jserror option \<times> 'w driver" where
  \<comment> \<open>\<open>None\<close>: the path is valid; \<open>Some e\<close>: \<open>e\<close> is thrown. \<open>fs.existsSync\<close> is only called
      for a path-like candidate.\<close>
  \<open>validateExecutablePath sys exePath st =
     (let pathLike = isPathLike exePath;
          st1 = (if pathLike then st\<lparr>trace := trace st @ [FsExists exePath]\<rparr> else st)
      in if pathLike \<and> \<not> existsSync sys (world st) exePath then
           (Some (JSError ''Error'' (''DuckDB executable not found at "'' @ exePath @ ''".'')), st1)
         else
           (case execFile sys (world st1) exePath [''--version''] of
              (ExecOk out, w) \<Rightarrow>
                (None, st1\<lparr>world := w, trace := trace st1 @ [Spawn exePath [''--version'']]\<rparr>)
            | (ExecFail err out msg, w) \<Rightarrow>
                (let stderr = (case err of Some s \<Rightarrow> trim s | None \<Rightarrow> []);
                     message = (if stderr \<noteq> [] then stderr
                                else if msg \<noteq> [] then msg
                                else ''Failed to execute DuckDB CLI.'')
                 in (Some (JSError ''Error'' (''DuckDB CLI validation failed. '' @ message)),
                     st1\<lparr>world := w, trace := trace st1 @ [Spawn exePath [''--version'']]\<rparr>))))\<close>

text \<open>
  The \<open>for\<close> loop over the auto-discovery candidates (lines 240 to 247): the first candidate
  that validates is returned, the others add to \<open>attempts\<close>.
\<close>

fun try_candidates ::
  "'w sys \<Rightarrow> string list \<Rightarrow> string list \<Rightarrow> 'w driver \<Rightarrow> (string list + string) \<times> 'w driver" where
  "try_candidates sys [] attempts st = (Inl attempts, st)"
| "try_candidates sys (candidate # cs) attempts st =
     (case validateExecutablePath sys candidate st of
        (None, st1) \<Rightarrow> (Inr candidate, st1)
      | (Some e, st1) \<Rightarrow>
          try_candidates sys cs (attempts @ [candidate @ '' -> '' @ error_text e]) st1)"

definition resolveExecutablePath ::
  "'w sys \<Rightarrow> credentials \<Rightarrow> 'w driver \<Rightarrow> (jserror + string) \<times> 'w driver" where
  \<open>resolveExecutablePath sys cr st =
     (let configuredPath = getConfiguredExecutablePath sys cr in
      if configuredPath \<noteq> [] then
        (case validateExecutablePath sys configuredPath st of
           (None, st1) \<Rightarrow> (Inr configuredPath, st1)
         | (Some e, st1) \<Rightarrow>
             (Inl (JSError ''Error''
                (''Invalid "duckdbCliPath" / "duckdbPath": "'' @ configuredPath @ ''".'' @ '' '' @ error_text e)),
              st1))
      else
        (case getEnvironmentExecutablePath sys st of (environmentPath, st0) \<Rightarrow>
         if environmentPath \<noteq> [] then
           (case validateExecutablePath sys environmentPath st0 of
              (None, st1) \<Rightarrow> (Inr environmentPath, st1)
            | (Some e, st1) \<Rightarrow>
                (Inl (JSError ''Error''
                   (''Invalid environment variable '' @ DUCKDB_CLI_PATH_ENV @ '': "'' @ environmentPath
                      @ ''".'' @ '' '' @ error_text e)),
                 st1))
         else
           (case try_candidates sys (getAutoExecutableCandidates sys) [] st0 of
              (Inr candidate, st1) \<Rightarrow> (Inr candidate, st1)
            | (Inl attempts, st1) \<Rightarrow>
                (let attemptedMessage =
                       (if attempts \<noteq> [] then '' Attempted: '' @ intercalate '' | '' (take 5 attempts)
                        else [])
                 in (Inl (JSError ''Error''
                       (''DuckDB CLI executable was not found.'' @ '' ''
                          @ ''Set "duckdbCliPath" in the connection settings or add "duckdb" to your PATH.''
                          @ attemptedMessage)),
                     st1)))))\<close>

definition isReadOnlyEnabled :: "credentials \<Rightarrow> bool" where
  "isReadOnlyEnabled cr =
     (case readOnlySetting cr of
        JBool b \<Rightarrow> b
      | JStr s \<Rightarrow> toLowerCase (trim s) \<in> set [''1'', ''true'', ''yes'', ''enabled'', ''on'']
      | _ \<Rightarrow> False)"

definition createDirIfNotExists ::
  "'w sys \<Rightarrow> string \<Rightarrow> bool \<Rightarrow> 'w driver \<Rightarrow> jserror option \<times> 'w driver" where
  \<open>createDirIfNotExists sys db ro st =
     (if toLowerCase db = '':memory:'' then (None, st)
      else if ro then
        (if \<not> existsSync sys (world st) db then
           (Some (JSError ''Error'' (''Database file not found for read-only mode: "'' @ db @ ''"'')),
            st\<lparr>trace := trace st @ [FsExists db]\<rparr>)
         else (None, st\<lparr>trace := trace st @ [FsExists db]\<rparr>))
      else
        (case mkdirSync sys (world st) (dirname sys db) of
           (r, w) \<Rightarrow> (r, st\<lparr>world := w, trace := trace st @ [Mkdir (dirname sys db)]\<rparr>)))\<close>

definition open_connection ::
  "'w sys \<Rightarrow> credentials \<Rightarrow> 'w driver \<Rightarrow> (jserror + connection) \<times> 'w driver" where
  \<comment> \<open>The method \<open>open\<close> (lines 276 to 296).\<close>
  \<open>open_connection sys cr st =
     (case conn st of
        Some c \<Rightarrow> (Inr c, st)
      | None \<Rightarrow>
          (case resolveExecutablePath sys cr st of
             (Inl e, st1) \<Rightarrow> (Inl e, st1)
           | (Inr exe, st1) \<Rightarrow>
               (let db = getDatabase sys cr;
                    ro = isReadOnlyEnabled cr
                in if ro \<and> toLowerCase db = '':memory:'' then
                     (Inl (JSError ''Error'' ''Read-only mode is not supported with ":memory:" database.''),
                      st1)
                   else
                     (case createDirIfNotExists sys db ro st1 of
                        (Some e, st2) \<Rightarrow> (Inl e, st2)
                      | (None, st2) \<Rightarrow>
                          (let c = \<lparr>databasePath = db, executablePath = exe, readOnly = ro\<rparr>
                           in (Inr c, st2\<lparr>conn := Some c\<rparr>))))))\<close>

section \<open>Query execution\<close>

definition is_word_char :: "char \<Rightarrow> bool" where
  \<comment> \<open>The characters between which \<open>\b\<close> finds no boundary.\<close>
  "is_word_char c \<longleftrightarrow> is_lower c \<or> is_upper c \<or> is_digit c \<or> c = CHR ''_''"

definition result_set_keywords :: "string list" where
  "result_set_keywords =
     [''select'', ''with'', ''pragma'', ''show'', ''describe'', ''call'', ''explain'', ''summarize'']"

definition matches_keyword :: "string \<Rightarrow> string \<Rightarrow> bool" where
  \<comment> \<open>\<open>/^kw\b/i\<close> on \<open>t\<close>: \<open>t\<close> starts with \<open>kw\<close> in either case, and a word character does
      not follow.\<close>
  "matches_keyword kw t \<longleftrightarrow>
     length kw \<le> length t \<and> map lower_char (take (length kw) t) = kw
     \<and> (case drop (length kw) t of [] \<Rightarrow> True | c # _ \<Rightarrow> \<not> is_word_char c)"

definition isResultSetQuery :: "string \<Rightarrow> bool" where
  "isResultSetQuery q \<longleftrightarrow> list_ex (\<lambda>kw. matches_keyword kw (trim q)) result_set_keywords"

definition leading_keyword :: "string \<Rightarrow> string" where
  \<comment> \<open>The leading keyword of a statement as the specification reads it: the word the
      trimmed statement starts with, in lower case.\<close>
  "leading_keyword q = toLowerCase (takeWhile is_word_char (trim q))"

datatype message = Message string
  \<comment> \<open>What \<open>prepareMessage\<close> of the base driver returns, without the date it stamps on it.\<close>

record result =
  requestId :: "string option"
  resultId :: string
  connId :: string
  cols :: "string list"
  messages :: "message list"
  query_text :: string
  results :: "jsval list"
  error :: bool
  rawError :: "jserror option"

definition createResultId :: "'w sys \<Rightarrow> 'w driver \<Rightarrow> string \<times> 'w driver" where
  "createResultId sys st =
     (case randomUUID sys (world st) of
        (Some u, w) \<Rightarrow> (u, st\<lparr>world := w\<rparr>)
      | (None, w) \<Rightarrow> (case clockId sys w of (s, w') \<Rightarrow> (s, st\<lparr>world := w'\<rparr>)))"

definition runSingleQuery ::
  "'w sys \<Rightarrow> credentials \<Rightarrow> string \<Rightarrow> 'w driver \<Rightarrow> (jserror + jsval list) \<times> 'w driver" where
  \<comment> \<open>Lines 308 to 334. An error of \<open>open\<close> is thrown as it is; an error of the subprocess or
      of \<open>JSON.parse\<close> is caught and thrown again with the diagnostic text as its message.\<close>
  "runSingleQuery sys cr q st =
     (case open_connection sys cr st of
        (Inl e, st1) \<Rightarrow> (Inl e, st1)
      | (Inr c, st1) \<Rightarrow>
          (let args = [databasePath c] @ (if readOnly c then [''-readonly''] else []) @ [''-json'', ''-c'', q]
           in case execFile sys (world st1) (executablePath c) args of
                (ExecOk out, w) \<Rightarrow>
                  (let st2 = st1\<lparr>world := w, trace := trace st1 @ [Spawn (executablePath c) args]\<rparr>
                   in if out = [] \<or> trim out = [] then (Inr [], st2)
                      else (case jsonParse sys out of
                              Inr parsed \<Rightarrow>
                                (Inr (case parsed of JArr rows \<Rightarrow> rows | _ \<Rightarrow> [parsed]), st2)
                            | Inl msg \<Rightarrow>
                                (Inl (JSError ''Error''
                                        (if msg \<noteq> [] then msg else ''DuckDB CLI query failed.'')),
                                 st2)))
              | (ExecFail err out msg, w) \<Rightarrow>
                  (let stderr = (case err of Some s \<Rightarrow> trim s | None \<Rightarrow> []);
                       stdout = (case out of Some s \<Rightarrow> trim s | None \<Rightarrow> []);
                       reason = (if stderr \<noteq> [] then stderr
                                 else if stdout \<noteq> [] then stdout
                                 else if msg \<noteq> [] then msg
                                 else ''DuckDB CLI query failed.'')
                   in (Inl (JSError ''Error'' reason),
                       st1\<lparr>world := w, trace := trace st1 @ [Spawn (executablePath c) args]\<rparr>))))"

definition error_result ::
  "'w sys \<Rightarrow> credentials \<Rightarrow> string option \<Rightarrow> string \<Rightarrow> jserror \<Rightarrow> 'w driver \<Rightarrow> result \<times> 'w driver" where
  \<comment> \<open>The \<open>catch\<close> block of the loop in \<open>query\<close> (lines 357 to 369).\<close>
  "error_result sys cr req q e st =
     (case createResultId sys st of
        (rid, st1) \<Rightarrow>
          (\<lparr>requestId = req, resultId = rid, connId = cred_id cr, cols = [],
            messages = [Message (error_text e)], query_text = q, results = [],
            error = True, rawError = Some e\<rparr>, st1))"

definition run_statement ::
  "'w sys \<Rightarrow> credentials \<Rightarrow> string option \<Rightarrow> string \<Rightarrow> 'w driver \<Rightarrow> result \<times> 'w driver" where
  \<comment> \<open>One pass through the body of the loop in \<open>query\<close> (lines 342 to 369). \<open>Object.keys\<close>
      throws on a first row that is \<open>null\<close>, after the result id has been drawn.\<close>
  "run_statement sys cr req q st =
     (case runSingleQuery sys cr q st of
        (Inl e, st1) \<Rightarrow> error_result sys cr req q e st1
      | (Inr rows, st1) \<Rightarrow>
          (let msgs = (if rows = [] \<and> \<not> isResultSetQuery q
                       then [Message ''Statement executed successfully.''] else [])
           in case createResultId sys st1 of
                (rid, st2) \<Rightarrow>
                  (case (if rows \<noteq> [] then object_keys (hd rows) else Some []) of
                     Some ks \<Rightarrow>
                       (\<lparr>requestId = req, resultId = rid, connId = cred_id cr, cols = ks,
                         messages = msgs, query_text = q, results = rows,
                         error = False, rawError = None\<rparr>, st2)
                   | None \<Rightarrow>
                       error_result sys cr req q
                         (JSError ''TypeError'' ''Cannot convert undefined or null to object'') st2)))"

fun query_loop ::
  "'w sys \<Rightarrow> credentials \<Rightarrow> string option \<Rightarrow> string list \<Rightarrow> 'w driver \<Rightarrow> result list
     \<Rightarrow> result list \<times> 'w driver" where
  \<comment> \<open>The \<open>for\<close> loop of \<open>query\<close>; \<open>resultsAgg\<close> is the last argument, and \<open>break\<close> returns it
      with the error result pushed.\<close>
  "query_loop sys cr req [] st resultsAgg = (resultsAgg, st)"
| "query_loop sys cr req (q # qs) st resultsAgg =
     (case run_statement sys cr req q st of
        (r, st1) \<Rightarrow>
          if error r then (resultsAgg @ [r], st1)
          else query_loop sys cr req qs st1 (resultsAgg @ [r]))"

definition query ::
  "'w sys \<Rightarrow> credentials \<Rightarrow> string option \<Rightarrow> string \<Rightarrow> 'w driver \<Rightarrow> result list \<times> 'w driver" where
  "query sys cr req script st =
     query_loop sys cr req (filter (\<lambda>s. s \<noteq> []) (splitSqlStatements script)) st []"

section \<open>A concrete runtime\<close>

text \<open>
  A small runtime on which the definitions can be run: the world is a counter of the
  statements executed and ids drawn; \<open>duckdb\<close> is on the search path and no file exists;
  a statement in which \<open>a\<close> is followed by \<open>d\<close> (as in \<open>SELECT bad\<close>) makes the CLI exit with
  an error, any other prints \<open>[]\<close>.
\<close>

definition demo_sys :: "nat sys" where
  "demo_sys =
     \<lparr>execFile = (\<lambda>w p args.
                    if args = [''--version''] then
                      (if p = ''duckdb'' then (ExecOk ''v1.0.0'', w)
                       else (ExecFail None None (''spawn '' @ p @ '' ENOENT''), w))
                    else if has_pair (CHR ''a'') (CHR ''d'') (last args) then
                      (ExecFail (Some ''Parser Error: syntax error'') (Some []) ''Command failed'', Suc w)
                    else (ExecOk ''[]'', Suc w)),
      existsSync = (\<lambda>w p. False),
      mkdirSync = (\<lambda>w p. (None, w)),
      env_var = (\<lambda>n. None),
      platform = ''linux'',
      toAbsolutePath = (\<lambda>p. p),
      dirname = (\<lambda>p. p),
      jsonParse = (\<lambda>s. if s = ''[]'' then Inr (JArr []) else Inl ''Unexpected token''),
      randomUUID = (\<lambda>w. (Some (''id-'' @ show_nat w), Suc w)),
      clockId = (\<lambda>w. (''clock-'' @ show_nat w, Suc w))\<rparr>"

definition demo_credentials :: credentials where
  "demo_credentials =
     \<lparr>cred_id = ''conn-1'', database = Some '':memory:'', duckdbCliPath = JUndefined,
      duckdbPath = JUndefined, readOnlySetting = JBool False\<rparr>"

definition fresh_driver :: "nat driver" where
  "fresh_driver = \<lparr>world = 0, conn = None, trace = []\<rparr>"

definition open_driver :: "nat driver" where
  \<comment> \<open>The driver after a first \<open>open\<close> on the concrete runtime.\<close>
  "open_driver =
     \<lparr>world = 0,
      conn = Some \<lparr>databasePath = '':memory:'', executablePath = ''duckdb'', readOnly = False\<rparr>,
      trace = [EnvRead ''DUCKDB_CLI_PATH'', Spawn ''duckdb'' [''--version'']]\<rparr>"

definition readonly_memory_credentials :: credentials where
  \<comment> \<open>Read-only mode on the in-memory database.\<close>
  "readonly_memory_credentials = demo_credentials\<lparr>readOnlySetting := JStr ''Yes''\<rparr>"


section \<open>Completion index\<close>

record documentation =
  doc_value :: string
  doc_kind :: string

record completion =
  label :: string
  detail :: string
  filterText :: string
  sortText :: string
  documentation :: "documentation option"

text \<open>
  An object used as a dictionary (\<open>completions\<close>) and a \<open>Map\<close> (\<open>functionMetaByLabel\<close>) are
  lists of keys and values in insertion order; writing a key that is there replaces its
  value in place, writing a new key appends it.
\<close>

fun obj_set :: "string \<Rightarrow> 'v \<Rightarrow> (string \<times> 'v) list \<Rightarrow> (string \<times> 'v) list" where
  "obj_set k v [] = [(k, v)]"
| "obj_set k v ((k', v') # kvs) = (if k' = k then (k, v) # kvs else (k', v') # obj_set k v kvs)"

definition PRIORITIZED_SQL_WORDS :: "string list" where
  "PRIORITIZED_SQL_WORDS = [''SELECT'', ''CREATE'', ''UPDATE'', ''DELETE'']"

definition ident_shaped :: "string \<Rightarrow> bool" where
  \<comment> \<open>\<open>/^[A-Z_][A-Z0-9_]*$/\<close>\<close>
  "ident_shaped s \<longleftrightarrow>
     (case s of [] \<Rightarrow> False
      | c # cs \<Rightarrow> (is_upper c \<or> c = CHR ''_'')
                  \<and> list_all (\<lambda>d. is_upper d \<or> is_digit d \<or> d = CHR ''_'') cs)"

definition normalizeCompletionLabel :: "jsval \<Rightarrow> string option" where
  "normalizeCompletionLabel v =
     (let label = toUpperCase (trim (to_str (js_or v (JStr []))))
      in if label = [] then None
         else if \<not> ident_shaped label then None
         else Some label)"

fun split_on :: "char \<Rightarrow> string \<Rightarrow> string list" where
  \<comment> \<open>\<open>String.prototype.split\<close> with a one-character separator.\<close>
  "split_on sep [] = [[]]"
| "split_on sep (x # xs) =
     (if x = sep then [] # split_on sep xs
      else (case split_on sep xs of w # ws \<Rightarrow> (x # w) # ws | [] \<Rightarrow> [[x]]))"

definition is_quote :: "char \<Rightarrow> bool" where
  "is_quote c \<longleftrightarrow> c = CHR 0x27 \<or> c = CHR 0x22"

definition strip_quotes :: "string \<Rightarrow> string" where
  \<comment> \<open>\<open>replace(/^['"]|['"]$/g, '')\<close>: one quote character is removed at the start, and one
      at the end of what is left.\<close>
  "strip_quotes s =
     (let s1 = (case s of c # cs \<Rightarrow> if is_quote c then cs else s | [] \<Rightarrow> [])
      in if s1 \<noteq> [] \<and> is_quote (last s1) then butlast s1 else s1)"

definition toStringArray :: "jsval \<Rightarrow> string list" where
  "toStringArray v =
     (case v of
        JArr items \<Rightarrow>
          filter (\<lambda>s. s \<noteq> []) (map (\<lambda>item. trim (to_str (nullish_or item (JStr [])))) items)
      | JStr s \<Rightarrow>
          (let trimmed = trim s
           in if trimmed = [] then []
              else if hd trimmed = CHR ''['' \<and> last trimmed = CHR '']'' then
                (let inner = trim (butlast (tl trimmed))
                 in if inner = [] then []
                    else filter (\<lambda>s. s \<noteq> [])
                           (map (\<lambda>item. strip_quotes (trim item)) (split_on (CHR '','') inner)))
              else [trimmed])
      | _ \<Rightarrow> [])"

definition object_tags :: "(string \<times> jsval) list \<Rightarrow> string list" where
  \<comment> \<open>The \<open>typeof value === 'object'\<close> branch of \<open>toTagArray\<close>, on the properties of the
      value.\<close>
  "object_tags kvs =
     filter (\<lambda>s. s \<noteq> [])
       (map (\<lambda>(key, val).
               let stringVal = trim (to_str (nullish_or val (JStr [])))
               in if stringVal \<noteq> [] then key @ ''='' @ stringVal else key) kvs)"

definition tags_of_value :: "jsval \<Rightarrow> string list" where
  \<comment> \<open>\<open>toTagArray\<close> on a value that is not a string. An array is an object whose keys are
      its indices.\<close>
  "tags_of_value v =
     (if \<not> truthy v then []
      else (case v of
              JObj kvs \<Rightarrow> object_tags kvs
            | JArr xs \<Rightarrow> object_tags (zip (map show_nat [0..<length xs]) xs)
            | _ \<Rightarrow> []))"

lemma length_trim_le: "length (trim s) \<le> length s"
proof -
  have "length (dropWhile is_space (rev (dropWhile is_space s))) \<le> length (rev (dropWhile is_space s))"
    by (rule length_dropWhile_le)
  also have "\<dots> \<le> length s" by (simp add: length_dropWhile_le)
  finally show ?thesis by (simp add: trim_def)
qed

text \<open>
  \<open>toTagArray\<close> on a string parses the trimmed text and starts again on the parsed value.
  \<open>JSON.parse\<close> returns a string only for a text that is a string literal, and that string
  is shorter than the text by the two quotes at least, so the recursion ends. The parser
  is a parameter of the model; where it returned a string that is not shorter than the
  text, which \<open>JSON.parse\<close> never does, the model stops with the trimmed text.
\<close>

function tag_strings :: "(string \<Rightarrow> string + jsval) \<Rightarrow> string \<Rightarrow> string list" where
  "tag_strings parse s =
     (let trimmed = trim s
      in if trimmed = [] then []
         else (case parse trimmed of
                 Inl _ \<Rightarrow> [trimmed]
               | Inr (JStr s') \<Rightarrow>
                   if length s' < length trimmed then tag_strings parse s' else [trimmed]
               | Inr v \<Rightarrow> tags_of_value v))"
  by pat_completeness auto
termination
  by (relation "measure (\<lambda>(parse, s). length s)")
     (auto intro: less_le_trans[OF _ length_trim_le])

definition toTagArray :: "(string \<Rightarrow> string + jsval) \<Rightarrow> jsval \<Rightarrow> string list" where
  "toTagArray parse v = (case v of JStr s \<Rightarrow> tag_strings parse s | _ \<Rightarrow> tags_of_value v)"

definition keyword_doc :: "string \<Rightarrow> string \<Rightarrow> string" where
  "keyword_doc l category =
     ''```yaml\<newline>WORD: '' @ l @ ''\<newline>TYPE: '' @ category @ ''\<newline>```''"

definition keyword_entry :: "string \<Rightarrow> string \<Rightarrow> completion" where
  "keyword_entry l category =
     \<lparr>label = l, detail = l, filterText = l,
      sortText = (if l \<in> set PRIORITIZED_SQL_WORDS then ''2:'' else ''4:'') @ l,
      documentation = Some \<lparr>doc_value = keyword_doc l category, doc_kind = ''markdown''\<rparr>\<rparr>"

definition keyword_label :: "jsval \<Rightarrow> string option" where
  "keyword_label item = normalizeCompletionLabel (get_prop item ''label'')"

definition keyword_category :: "jsval \<Rightarrow> string" where
  "keyword_category item =
     toUpperCase (trim (to_str (js_or (get_prop item ''category'') (JStr ''KEYWORD''))))"

definition addKeywordCompletion ::
  "jsval \<Rightarrow> (string \<times> completion) list \<Rightarrow> (string \<times> completion) list" where
  \<comment> \<open>The callback of \<open>items.forEach\<close> in \<open>addKeywordCompletions\<close>.\<close>
  "addKeywordCompletion item completions =
     (case keyword_label item of
        None \<Rightarrow> completions
      | Some l \<Rightarrow> obj_set l (keyword_entry l (keyword_category item)) completions)"

definition addKeywordCompletions ::
  "jsval list \<Rightarrow> (string \<times> completion) list \<Rightarrow> (string \<times> completion) list" where
  "addKeywordCompletions items completions = fold addKeywordCompletion items completions"

text \<open>
  A function row (\<open>TDynamicFunctionRow\<close>) is an object; it is modelled by the list of its
  properties.
\<close>

type_synonym fn_row = "(string \<times> jsval) list"

definition row_prop :: "fn_row \<Rightarrow> string \<Rightarrow> jsval" where
  "row_prop item k = get_prop (JObj item) k"

record function_meta =
  categories :: "string list"
  returnTypes :: "string list"
  signatures :: "string list"
  tags :: "string list"
  description :: string

definition empty_meta :: function_meta where
  "empty_meta = \<lparr>categories = [], returnTypes = [], signatures = [], tags = [], description = []\<rparr>"

definition row_label :: "fn_row \<Rightarrow> string option" where
  "row_label item = normalizeCompletionLabel (js_or (row_prop item ''label'') (row_prop item ''name''))"

definition row_category :: "fn_row \<Rightarrow> string" where
  "row_category item =
     (let c = toUpperCase (trim (to_str
                (js_or (js_or (js_or (row_prop item ''category'') (row_prop item ''functionType''))
                          (row_prop item ''type'')) (JStr ''FUNCTION''))))
      in if c \<noteq> [] then c else ''FUNCTION'')"

definition row_returnType :: "fn_row \<Rightarrow> string" where
  "row_returnType item =
     trim (to_str (js_or (js_or (row_prop item ''returnType'') (row_prop item ''return_type'')) (JStr [])))"

definition row_description :: "fn_row \<Rightarrow> string" where
  "row_description item = trim (to_str (js_or (row_prop item ''description'') (JStr [])))"

definition row_tags :: "(string \<Rightarrow> string + jsval) \<Rightarrow> fn_row \<Rightarrow> string list" where
  "row_tags parse item = toTagArray parse (row_prop item ''tags'')"

definition signature_param :: "string list \<Rightarrow> string list \<Rightarrow> nat \<Rightarrow> string" where
  \<comment> \<open>The callback of \<open>map\<close> at lines 502 to 509; an index past the end of an array reads
      \<open>undefined\<close>, which \<open>|| ''\<close> turns into the empty string.\<close>
  "signature_param parameterNames parameterTypes index =
     (let parameterName = (if index < length parameterNames then parameterNames ! index else []);
          parameterType = (if index < length parameterTypes then parameterTypes ! index else [])
      in if parameterName \<noteq> [] \<and> parameterType \<noteq> [] \<and> parameterName \<noteq> parameterType
         then parameterName @ '': '' @ parameterType
         else if parameterName \<noteq> [] then parameterName else parameterType)"

definition row_signatureParams :: "fn_row \<Rightarrow> string list" where
  "row_signatureParams item =
     (let parameterNames = toStringArray (row_prop item ''parameters'');
          parameterTypes = toStringArray (js_or (row_prop item ''parameterTypes'') (row_prop item ''parameter_types''))
      in filter (\<lambda>s. s \<noteq> [])
           (map (signature_param parameterNames parameterTypes)
                [0..<max (length parameterNames) (length parameterTypes)]))"

definition row_signature :: "string \<Rightarrow> fn_row \<Rightarrow> string" where
  "row_signature l item = l @ ''('' @ intercalate '', '' (row_signatureParams item) @ '')''"

definition merge_row :: "(string \<Rightarrow> string + jsval) \<Rightarrow> string \<Rightarrow> fn_row \<Rightarrow> function_meta \<Rightarrow> function_meta" where
  \<comment> \<open>Lines 520 to 526: what one row adds to the meta of its label.\<close>
  "merge_row parse l item currentMeta =
     (let m1 = currentMeta\<lparr>categories := set_add (row_category item) (categories currentMeta)\<rparr>;
          m2 = (if row_returnType item \<noteq> []
                then m1\<lparr>returnTypes := set_add (row_returnType item) (returnTypes m1)\<rparr> else m1);
          m3 = (if row_signatureParams item \<noteq> []
                then m2\<lparr>signatures := set_add (row_signature l item) (signatures m2)\<rparr> else m2);
          m4 = m3\<lparr>tags := fold set_add (row_tags parse item) (tags m3)\<rparr>
      in if description m4 = [] \<and> row_description item \<noteq> []
         then m4\<lparr>description := row_description item\<rparr> else m4)"

definition collect_row ::
  "(string \<Rightarrow> string + jsval) \<Rightarrow> fn_row \<Rightarrow> (string \<times> function_meta) list
     \<Rightarrow> (string \<times> function_meta) list" where
  \<comment> \<open>The callback of the first \<open>forEach\<close> of \<open>addFunctionCompletions\<close> (lines 490 to 528).\<close>
  "collect_row parse item functionMetaByLabel =
     (case row_label item of
        None \<Rightarrow> functionMetaByLabel
      | Some l \<Rightarrow>
          (let currentMeta = (case map_of functionMetaByLabel l of Some m \<Rightarrow> m | None \<Rightarrow> empty_meta)
           in obj_set l (merge_row parse l item currentMeta) functionMetaByLabel))"

definition collectFunctionMeta ::
  "(string \<Rightarrow> string + jsval) \<Rightarrow> fn_row list \<Rightarrow> (string \<times> function_meta) list" where
  "collectFunctionMeta parse items = fold (collect_row parse) items []"

definition function_doc :: "string \<Rightarrow> function_meta \<Rightarrow> string" where
  \<comment> \<open>\<open>docValue\<close> (lines 531 to 552).\<close>
  "function_doc l meta =
     (let cats = categories meta;
          rts = take 3 (returnTypes meta);
          tgs = take 6 (tags meta);
          sigs = take 8 (signatures meta);
          yamlLines =
            [''```yaml'', ''WORD: '' @ l,
             ''TYPE: '' @ (if intercalate '', '' cats \<noteq> [] then intercalate '', '' cats else ''FUNCTION'')]
            @ (if rts \<noteq> [] then [''RETURNS: '' @ intercalate '', '' rts] else [])
            @ (if tgs \<noteq> [] then [''TAGS: '' @ intercalate '', '' tgs] else [])
            @ [''```''];
          signatureBlock =
            (if sigs \<noteq> []
             then ''\<newline>\<newline>Signatures:\<newline>''
                    @ intercalate ''\<newline>'' (map (\<lambda>sg. ''- `'' @ sg @ ''`'') sigs)
             else []);
          descriptionBlock =
            (if description meta \<noteq> [] then ''\<newline>\<newline>'' @ description meta else [])
      in intercalate ''\<newline>'' yamlLines @ signatureBlock @ descriptionBlock)"

definition function_entry :: "string \<Rightarrow> function_meta \<Rightarrow> completion" where
  "function_entry l meta =
     \<lparr>label = l,
      detail = (case take 8 (signatures meta) of sg # _ \<Rightarrow> if sg \<noteq> [] then sg else l @ ''(...)''
                | [] \<Rightarrow> l @ ''(...)''),
      filterText = l, sortText = ''3:'' @ l,
      documentation = Some \<lparr>doc_value = function_doc l meta, doc_kind = ''markdown''\<rparr>\<rparr>"

definition merged_doc :: "completion \<Rightarrow> string \<Rightarrow> string" where
  \<comment> \<open>Lines 555 to 557: the documentation text of an entry that is already there, with
      \<open>docValue\<close> appended.\<close>
  "merged_doc e docValue =
     (let existingDocumentation =
            trim (case documentation e of Some d \<Rightarrow> doc_value d | None \<Rightarrow> [])
      in if existingDocumentation \<noteq> [] then existingDocumentation @ ''\<newline>\<newline>'' @ docValue
         else docValue)"

definition apply_meta ::
  "string \<times> function_meta \<Rightarrow> (string \<times> completion) list \<Rightarrow> (string \<times> completion) list" where
  \<comment> \<open>The callback of \<open>functionMetaByLabel.forEach\<close> (lines 530 to 573).\<close>
  "apply_meta lm completions =
     (case lm of (l, meta) \<Rightarrow>
        (case map_of completions l of
           Some e \<Rightarrow>
             obj_set l (e\<lparr>documentation :=
                          Some \<lparr>doc_value = merged_doc e (function_doc l meta), doc_kind = ''markdown''\<rparr>\<rparr>)
               completions
         | None \<Rightarrow> obj_set l (function_entry l meta) completions))"

definition addFunctionCompletions ::
  "(string \<Rightarrow> string + jsval) \<Rightarrow> fn_row list \<Rightarrow> (string \<times> completion) list
     \<Rightarrow> (string \<times> completion) list" where
  "addFunctionCompletions parse items completions =
     fold apply_meta (collectFunctionMeta parse items) completions"

definition keyword_labels :: "jsval list \<Rightarrow> string set" where
  \<comment> \<open>The labels that the keyword rows normalize to.\<close>
  "keyword_labels items = {l. \<exists>item\<in>set items. keyword_label item = Some l}"

definition function_labels :: "fn_row list \<Rightarrow> string set" where
  \<comment> \<open>The labels that the function rows normalize to.\<close>
  "function_labels items = {l. \<exists>item\<in>set items. row_label item = Some l}"



text \<open>Rows on which the completion index can be computed.\<close>

definition demo_keyword_rows :: "jsval list" where
  "demo_keyword_rows =
     [JObj [(''label'', JStr ''AND''), (''category'', JStr ''RESERVED'')],
      JObj [(''label'', JStr ''SELECT''), (''category'', JStr ''RESERVED'')],
      JObj [(''label'', JStr ''NOW''), (''category'', JStr ''UNRESERVED'')]]"

definition demo_function_rows :: "fn_row list" where
  "demo_function_rows =
     [[(''label'', JStr ''abs''), (''category'', JStr ''SCALAR''), (''returnType'', JStr ''BIGINT''),
       (''parameters'', JArr [JStr ''x'']), (''parameterTypes'', JArr [JStr ''BIGINT''])],
      [(''label'', JStr ''now''), (''category'', JStr ''SCALAR'')],
      [(''label'', JStr ''now''), (''category'', JStr ''SCALAR''), (''parameters'', JArr [JStr ''x''])]]"

definition shrinking :: "(string \<Rightarrow> string + jsval) \<Rightarrow> bool" where
  \<comment> \<open>What \<open>JSON.parse\<close> guarantees: a parsed string is shorter than the text it was parsed
      from.\<close>
  "shrinking parse \<longleftrightarrow> (\<forall>t s'. parse t = Inr (JStr s') \<longrightarrow> length s' < length t)"

text \<open>The meta of one label, and the part of it that the entry renders.\<close>

definition rows_of :: "string \<Rightarrow> fn_row list \<Rightarrow> fn_row list" where
  \<comment> \<open>The rows whose label normalizes to \<open>l\<close>, in the order of the source rows.\<close>
  "rows_of l items = filter (\<lambda>item. row_label item = Some l) items"

definition label_meta :: "(string \<Rightarrow> string + jsval) \<Rightarrow> string \<Rightarrow> fn_row list \<Rightarrow> function_meta" where
  \<comment> \<open>What the rows of the label \<open>l\<close> add, one after the other, to an empty meta.\<close>
  "label_meta parse l items = fold (merge_row parse l) (rows_of l items) empty_meta"

definition shown :: "function_meta \<Rightarrow> function_meta" where
  \<comment> \<open>The part of a meta that the documentation of its entry renders (lines 531 to 534):
      every category, the first three return types, the first six tags and the first
      eight signatures.\<close>
  "shown m = m\<lparr>returnTypes := take 3 (returnTypes m), tags := take 6 (tags m),
               signatures := take 8 (signatures m)\<rparr>"

definition demo_overloaded_rows :: "fn_row list" where
  \<comment> \<open>Nine rows of one function, each with another parameter.\<close>
  "demo_overloaded_rows =
     map (\<lambda>p. [(''label'', JStr ''f''), (''parameters'', JArr [JStr p])])
       [''a'', ''b'', ''c'', ''d'', ''e'', ''f'', ''g'', ''h'', ''i'']"


section \<open>The shape of a script, read from its text\<close>

text \<open>
  The regions of a script are described here on the text alone, without the scanner: a
  quoted region runs from a quote character to the next occurrence of the same character
  that is not doubled, a line comment from \<open>--\<close> to the end of the line, a block comment
  from \<open>/*\<close> to the first \<open>*/\<close>. A chunk is a text made of ordinary characters and of whole
  regions, so that it has no \<open>;\<close> outside a region; \<open>chunk True\<close> ends outside every
  region, \<open>chunk False\<close> ends inside a region that is never closed. The \<open>;\<close> characters
  between the chunks of a script are its top-level semicolons.
\<close>

fun quoted_body :: "char \<Rightarrow> string \<Rightarrow> bool" where
  \<comment> \<open>Every occurrence of the quote character \<open>q\<close> in the text is one half of a doubled
      \<open>qq\<close>, reading from the left.\<close>
  "quoted_body q [] = True"
| "quoted_body q [c] = (c \<noteq> q)"
| "quoted_body q (c # d # r) = (if c = q then d = q \<and> quoted_body q r else quoted_body q (d # r))"

fun starts_comment :: "string \<Rightarrow> bool" where
  \<comment> \<open>The text starts with \<open>--\<close> or with \<open>/*\<close>.\<close>
  "starts_comment (c # d # _) = ((c = CHR ''-'' \<and> d = CHR ''-'') \<or> (c = CHR ''/'' \<and> d = CHR ''*''))"
| "starts_comment _ = False"

fun starts_with :: "char \<Rightarrow> string \<Rightarrow> bool" where
  "starts_with q (c # _) = (c = q)"
| "starts_with q [] = False"

inductive chunk :: "bool \<Rightarrow> string \<Rightarrow> bool" where
  chunk_end: "chunk True []"
| chunk_char:
    "c \<noteq> CHR 0x27 \<Longrightarrow> c \<noteq> CHR 0x22 \<Longrightarrow> c \<noteq> CHR '';'' \<Longrightarrow> \<not> starts_comment (c # t)
       \<Longrightarrow> chunk b t \<Longrightarrow> chunk b (c # t)"
| chunk_quoted:
    "is_quote q \<Longrightarrow> quoted_body q body \<Longrightarrow> \<not> starts_with q t
       \<Longrightarrow> chunk b t \<Longrightarrow> chunk b ([q] @ body @ [q] @ t)"
| chunk_line_comment:
    "CHR 0x0A \<notin> set body \<Longrightarrow> chunk b t \<Longrightarrow> chunk b (''--'' @ body @ [CHR 0x0A] @ t)"
| chunk_block_comment:
    "\<not> has_pair (CHR ''*'') (CHR ''/'') body \<Longrightarrow> chunk b t \<Longrightarrow> chunk b (''/*'' @ body @ ''*/'' @ t)"
| chunk_open_quoted:
    "is_quote q \<Longrightarrow> quoted_body q body \<Longrightarrow> chunk False ([q] @ body)"
| chunk_open_line_comment:
    "CHR 0x0A \<notin> set body \<Longrightarrow> chunk False (''--'' @ body)"
| chunk_open_block_comment:
    "\<not> has_pair (CHR ''*'') (CHR ''/'') body \<Longrightarrow> chunk False (''/*'' @ body)"

definition script_of :: "string list \<Rightarrow> string" where
  \<comment> \<open>The script whose chunks, separated by \<open>;\<close>, are the given texts.\<close>
  "script_of chunks = intercalate '';'' chunks"

definition absorbed :: "bool \<Rightarrow> scan_state \<Rightarrow> string \<Rightarrow> bool" where
  \<comment> \<open>The scanner, started in state \<open>s\<close>, accumulates the text \<open>t\<close> whole and ends no statement;
      when \<open>b\<close> holds it ends outside every region.\<close>
  "absorbed b s t \<longleftrightarrow>
     statements (scan s t) = statements s \<and> current (scan s t) = current s @ t
     \<and> (b \<longrightarrow> normal_mode (scan s t))"

definition cuttable :: "string \<Rightarrow> bool" where
  \<comment> \<open>The text is one chunk, or starts with a closed chunk followed by a \<open>;\<close>.\<close>
  "cuttable t \<longleftrightarrow> (\<exists>b. chunk b t) \<or> (\<exists>g r. chunk True g \<and> t = g @ CHR '';'' # r)"



section \<open>Properties of the statement splitter\<close>

lemma all_dropWhile: "(\<forall>c\<in>set (dropWhile P s). P c) \<longleftrightarrow> (\<forall>c\<in>set s. P c)"
  by (induction s) auto

lemma trim_Nil_iff: "trim s = [] \<longleftrightarrow> (\<forall>c\<in>set s. is_space c)"
  unfolding trim_def rev_is_Nil_conv dropWhile_eq_Nil_conv set_rev all_dropWhile ..

lemma trim_idem: "trim (trim s) = trim s"
proof -
  define y where "y = dropWhile is_space s"
  define z where "z = dropWhile is_space (rev y)"
  have hy: "y = [] \<or> \<not> is_space (hd y)"
    unfolding y_def by (metis hd_dropWhile)
  have hz: "z = [] \<or> \<not> is_space (hd z)"
    unfolding z_def by (metis hd_dropWhile)
  have tz: "trim s = rev z" unfolding trim_def y_def z_def ..
  have a: "dropWhile is_space (rev z) = rev z"
  proof (cases "z = []")
    case True then show ?thesis by simp
  next
    case False
    have "rev y = takeWhile is_space (rev y) @ z" unfolding z_def by simp
    then have "y = rev z @ rev (takeWhile is_space (rev y))" by (metis rev_append rev_rev_ident)
    then have "hd y = hd (rev z)" using False by (metis hd_append2 rev_is_Nil_conv)
    moreover have "y \<noteq> []" using False unfolding z_def by auto
    ultimately have "\<not> is_space (hd (rev z))" using hy by auto
    with False show ?thesis by (cases "rev z") auto
  qed
  have b: "dropWhile is_space z = z" using hz by (cases z) auto
  show ?thesis unfolding tz unfolding trim_def a rev_rev_ident b ..
qed

lemma scan_line_step:
  "inLineComment s \<Longrightarrow> scan s (ch # rest) =
     (if ch = CHR 0x0A then scan (s\<lparr>current := current s @ [ch], inLineComment := False\<rparr>) rest
      else scan (s\<lparr>current := current s @ [ch]\<rparr>) rest)"
proof -
  assume a: "inLineComment s"
  have e: "s\<lparr>current := current s @ [ch], inLineComment := True\<rparr>
        = s\<lparr>current := current s @ [ch]\<rparr>" using a by (cases s) simp
  show ?thesis using a by (cases "ch = CHR 0x0A") (simp_all add: Let_def e split del: if_split)
qed

lemma scan_block_step:
  "\<not> inLineComment s \<Longrightarrow> inBlockComment s \<Longrightarrow> scan s (ch # rest) =
     (if ch = CHR ''*'' \<and> (case rest of [] \<Rightarrow> None | n # _ \<Rightarrow> Some n) = Some (CHR ''/'') then
          scan (s\<lparr>current := current s @ [ch, CHR ''/''], inBlockComment := False\<rparr>) (tl rest)
        else scan (s\<lparr>current := current s @ [ch]\<rparr>) rest)"
  by (simp add: Let_def split del: if_split)

lemma scan_squote_step:
  "\<not> inLineComment s \<Longrightarrow> \<not> inBlockComment s \<Longrightarrow> inSingleQuote s \<Longrightarrow> scan s (ch # rest) =
       (if ch = CHR 0x27 \<and> (case rest of [] \<Rightarrow> None | n # _ \<Rightarrow> Some n) = Some (CHR 0x27) then
          scan (s\<lparr>current := current s @ [ch, CHR 0x27]\<rparr>) (tl rest)
        else if ch = CHR 0x27 then
          scan (s\<lparr>current := current s @ [ch], inSingleQuote := False\<rparr>) rest
        else scan (s\<lparr>current := current s @ [ch]\<rparr>) rest)"
  by (simp add: Let_def split del: if_split)

lemma scan_dquote_step:
  "\<not> inLineComment s \<Longrightarrow> \<not> inBlockComment s \<Longrightarrow> \<not> inSingleQuote s \<Longrightarrow> inDoubleQuote s \<Longrightarrow>
    scan s (ch # rest) =
       (if ch = CHR 0x22 \<and> (case rest of [] \<Rightarrow> None | n # _ \<Rightarrow> Some n) = Some (CHR 0x22) then
          scan (s\<lparr>current := current s @ [ch, CHR 0x22]\<rparr>) (tl rest)
        else if ch = CHR 0x22 then
          scan (s\<lparr>current := current s @ [ch], inDoubleQuote := False\<rparr>) rest
        else scan (s\<lparr>current := current s @ [ch]\<rparr>) rest)"
  by (simp add: Let_def split del: if_split)

lemma scan_normal_step:
  "normal_mode s \<Longrightarrow> scan s (ch # rest) =
    (let next = (case rest of [] \<Rightarrow> None | n # _ \<Rightarrow> Some n) in
     if ch = CHR ''-'' \<and> next = Some (CHR ''-'') then
       scan (s\<lparr>current := current s @ [ch, CHR ''-''], inLineComment := True\<rparr>) (tl rest)
     else if ch = CHR ''/'' \<and> next = Some (CHR ''*'') then
       scan (s\<lparr>current := current s @ [ch, CHR ''*''], inBlockComment := True\<rparr>) (tl rest)
     else if ch = CHR 0x27 then
       scan (s\<lparr>current := current s @ [ch], inSingleQuote := True\<rparr>) rest
     else if ch = CHR 0x22 then
       scan (s\<lparr>current := current s @ [ch], inDoubleQuote := True\<rparr>) rest
     else if ch = CHR '';'' then
       (let trimmed = trim (current s) in
        scan (s\<lparr>statements := (if trimmed \<noteq> [] then statements s @ [trimmed] else statements s),
                current := []\<rparr>) rest)
     else scan (s\<lparr>current := current s @ [ch]\<rparr>) rest)"
  by (simp add: normal_mode_def split del: if_split)

declare scan.simps(2) [simp del]

lemma scan_in_line_comment:
  "inLineComment s \<Longrightarrow> CHR 0x0A \<notin> set t \<Longrightarrow> scan s t = s\<lparr>current := current s @ t\<rparr>"
  by (induction t arbitrary: s) (auto simp add: scan_line_step)

lemma scan_in_block_comment:
  "inBlockComment s \<Longrightarrow> \<not> inLineComment s \<Longrightarrow> \<not> has_pair (CHR ''*'') (CHR ''/'') t
     \<Longrightarrow> scan s t = s\<lparr>current := current s @ t\<rparr>"
proof (induction t arbitrary: s)
  case Nil then show ?case by simp
next
  case (Cons c t)
  then show ?case by (cases t) (auto simp add: scan_block_step)
qed

lemma scan_in_single_quote:
  "inSingleQuote s \<Longrightarrow> \<not> inLineComment s \<Longrightarrow> \<not> inBlockComment s \<Longrightarrow> CHR 0x27 \<notin> set t
     \<Longrightarrow> scan s t = s\<lparr>current := current s @ t\<rparr>"
  by (induction t arbitrary: s) (auto simp add: scan_squote_step)

lemma scan_in_double_quote:
  "inDoubleQuote s \<Longrightarrow> \<not> inLineComment s \<Longrightarrow> \<not> inBlockComment s \<Longrightarrow> \<not> inSingleQuote s
     \<Longrightarrow> CHR 0x22 \<notin> set t \<Longrightarrow> scan s t = s\<lparr>current := current s @ t\<rparr>"
  by (induction t arbitrary: s) (auto simp add: scan_dquote_step)

lemma scan_modes:
  obtains (line) "inLineComment s"
  | (block) "\<not> inLineComment s" "inBlockComment s"
  | (squote) "\<not> inLineComment s" "\<not> inBlockComment s" "inSingleQuote s"
  | (dquote) "\<not> inLineComment s" "\<not> inBlockComment s" "\<not> inSingleQuote s" "inDoubleQuote s"
  | (normal) "normal_mode s"
  unfolding normal_mode_def by blast

lemma scan_semicolon_in_region:
  assumes "\<not> normal_mode s"
  shows "scan s (CHR '';'' # rest) = scan (s\<lparr>current := current s @ '';''\<rparr>) rest"
proof (cases s rule: scan_modes)
  case line then show ?thesis by (simp add: scan_line_step)
next
  case block then show ?thesis by (simp add: scan_block_step)
next
  case squote then show ?thesis by (simp add: scan_squote_step)
next
  case dquote then show ?thesis by (simp add: scan_dquote_step)
next
  case normal then show ?thesis using assms by simp
qed

lemma scan_append:
  "inert t \<Longrightarrow> scan s (pre @ t) = scan (scan s pre) t"
proof (induction "length pre" arbitrary: pre s rule: less_induct)
  case less
  show ?case
  proof (cases pre)
    case Nil then show ?thesis by simp
  next
    case (Cons ch rest)
    have ih1: "\<And>s'. scan s' (rest @ t) = scan (scan s' rest) t"
      using less Cons by simp
    have ih2: "\<And>s'. scan s' (tl rest @ t) = scan (scan s' (tl rest)) t"
      using less Cons by simp
    have nx: "rest = [] \<Longrightarrow> (case t of [] \<Rightarrow> None | n # _ \<Rightarrow> Some n) \<notin> 
         {Some (CHR ''-''), Some (CHR ''*''), Some (CHR ''/''), Some (CHR 0x27), Some (CHR 0x22)}"
      using less.prems by (auto simp: inert_def split: list.splits)
    show ?thesis
    proof (cases s rule: scan_modes)
      case line then show ?thesis using ih1 Cons by (simp add: scan_line_step)
    next
      case block then show ?thesis using ih1 ih2 Cons nx
        by (cases rest) (auto simp add: scan_block_step)
    next
      case squote then show ?thesis using ih1 ih2 Cons nx
        by (cases rest) (auto simp add: scan_squote_step)
    next
      case dquote then show ?thesis using ih1 ih2 Cons nx
        by (cases rest) (auto simp add: scan_dquote_step)
    next
      case normal then show ?thesis using ih1 ih2 Cons nx
        by (cases rest) (auto simp add: scan_normal_step Let_def)
    qed
  qed
qed


lemma with_prefix_simps:
  "current (with_prefix A s) = current s"
  "statements (with_prefix A s) = A @ statements s"
  "inLineComment (with_prefix A s) = inLineComment s"
  "inBlockComment (with_prefix A s) = inBlockComment s"
  "inSingleQuote (with_prefix A s) = inSingleQuote s"
  "inDoubleQuote (with_prefix A s) = inDoubleQuote s"
  "normal_mode (with_prefix A s) = normal_mode s"
  "(with_prefix A s)\<lparr>current := c\<rparr> = with_prefix A (s\<lparr>current := c\<rparr>)"
  "(with_prefix A s)\<lparr>inLineComment := b\<rparr> = with_prefix A (s\<lparr>inLineComment := b\<rparr>)"
  "(with_prefix A s)\<lparr>inBlockComment := b\<rparr> = with_prefix A (s\<lparr>inBlockComment := b\<rparr>)"
  "(with_prefix A s)\<lparr>inSingleQuote := b\<rparr> = with_prefix A (s\<lparr>inSingleQuote := b\<rparr>)"
  "(with_prefix A s)\<lparr>inDoubleQuote := b\<rparr> = with_prefix A (s\<lparr>inDoubleQuote := b\<rparr>)"
  "(with_prefix A s)\<lparr>statements := A @ X\<rparr> = with_prefix A (s\<lparr>statements := X\<rparr>)"
  by (simp_all add: with_prefix_def normal_mode_def)

lemma scan_with_prefix: "scan (with_prefix A s) t = with_prefix A (scan s t)"
proof (induction "length t" arbitrary: t s rule: less_induct)
  case less
  show ?case
  proof (cases t)
    case Nil then show ?thesis by simp
  next
    case (Cons ch rest)
    have ih1: "\<And>s'. scan (with_prefix A s') rest = with_prefix A (scan s' rest)"
      using less Cons by simp
    have ih2: "\<And>s'. scan (with_prefix A s') (tl rest) = with_prefix A (scan s' (tl rest))"
      using less Cons by simp
    show ?thesis
    proof (cases s rule: scan_modes)
      case line then show ?thesis using ih1 Cons
        by (simp add: scan_line_step with_prefix_simps)
    next
      case block then show ?thesis using ih1 ih2 Cons
        by (simp add: scan_block_step with_prefix_simps)
    next
      case squote then show ?thesis using ih1 ih2 Cons
        by (simp add: scan_squote_step with_prefix_simps)
    next
      case dquote then show ?thesis using ih1 ih2 Cons
        by (simp add: scan_dquote_step with_prefix_simps)
    next
      case normal
      have e: "\<And>x. with_prefix A s\<lparr>statements := A @ statements s @ [x], current := []\<rparr>
           = with_prefix A (s\<lparr>statements := statements s @ [x], current := []\<rparr>)"
        and e2: "with_prefix A s\<lparr>current := []\<rparr> = with_prefix A (s\<lparr>current := []\<rparr>)"
        and e3: "with_prefix A s\<lparr>statements := A @ statements s, current := []\<rparr>
           = with_prefix A (s\<lparr>current := []\<rparr>)"
        by (simp_all add: with_prefix_def)
      from normal show ?thesis using ih1 ih2 Cons
        by (simp add: scan_normal_step with_prefix_simps(1-12) Let_def e e2 e3)
    qed
  qed
qed

lemma stmts_ok_snoc: "stmts_ok xs \<Longrightarrow> trim c \<noteq> [] \<Longrightarrow> stmts_ok (xs @ [trim c])"
  by (simp add: stmts_ok_def trim_idem)

lemma scan_stmts_ok: "stmts_ok (statements s) \<Longrightarrow> stmts_ok (statements (scan s t))"
proof (induction "length t" arbitrary: t s rule: less_induct)
  case less
  show ?case
  proof (cases t)
    case Nil then show ?thesis using less.prems by simp
  next
    case (Cons ch rest)
    have ih1: "\<And>s'. stmts_ok (statements s') \<Longrightarrow> stmts_ok (statements (scan s' rest))"
      using less Cons by simp
    have ih2: "\<And>s'. stmts_ok (statements s') \<Longrightarrow> stmts_ok (statements (scan s' (tl rest)))"
      using less Cons by simp
    show ?thesis
    proof (cases s rule: scan_modes)
      case line then show ?thesis using ih1 Cons less.prems
        by (simp add: scan_line_step)
    next
      case block then show ?thesis using ih1 ih2 Cons less.prems
        by (simp add: scan_block_step)
    next
      case squote then show ?thesis using ih1 ih2 Cons less.prems
        by (simp add: scan_squote_step)
    next
      case dquote then show ?thesis using ih1 ih2 Cons less.prems
        by (simp add: scan_dquote_step)
    next
      case normal then show ?thesis using ih1 ih2 Cons less.prems
        by (simp add: scan_normal_step Let_def stmts_ok_snoc)
    qed
  qed
qed

lemma split_stmts_ok: "stmts_ok (splitSqlStatements t)"
proof -
  have "stmts_ok (statements (scan scan_init t))"
    by (rule scan_stmts_ok) (simp add: scan_init_def stmts_ok_def)
  then show ?thesis
    by (simp add: splitSqlStatements_def finish_def Let_def stmts_ok_snoc)
qed

lemma normal_mode_eq:
  "normal_mode s \<Longrightarrow> s\<lparr>current := []\<rparr> = with_prefix (statements s) scan_init"
  by (cases s) (simp add: normal_mode_def with_prefix_def scan_init_def)

lemma split_at_top_level_semicolon:
  assumes "normal_mode (scan scan_init pre)"
  shows "splitSqlStatements (pre @ CHR '';'' # t) = splitSqlStatements pre @ splitSqlStatements t"
proof -
  define s1 where "s1 = scan scan_init pre"
  define A where "A = splitSqlStatements pre"
  have i: "inert (CHR '';'' # t)" by (simp add: inert_def)
  have n: "normal_mode s1" using assms by (simp add: s1_def)
  have A: "A = (if trim (current s1) \<noteq> [] then statements s1 @ [trim (current s1)] else statements s1)"
    by (simp add: A_def splitSqlStatements_def finish_def s1_def)
  have "scan scan_init (pre @ CHR '';'' # t) = scan s1 (CHR '';'' # t)"
    using scan_append[OF i] by (simp add: s1_def)
  also have "\<dots> = scan (s1\<lparr>statements := A, current := []\<rparr>) t"
    using n by (simp add: scan_normal_step A Let_def)
  also have "s1\<lparr>statements := A, current := []\<rparr> = with_prefix A scan_init"
    using n by (cases s1) (simp add: normal_mode_def with_prefix_def scan_init_def)
  finally have "scan scan_init (pre @ CHR '';'' # t) = with_prefix A (scan scan_init t)"
    by (simp add: scan_with_prefix)
  then show ?thesis
    by (simp add: splitSqlStatements_def finish_def with_prefix_simps Let_def A_def)
qed

lemma space_not_special:
  "is_space ch \<Longrightarrow> ch \<noteq> CHR ''-'' \<and> ch \<noteq> CHR ''/'' \<and> ch \<noteq> CHR 0x27 \<and> ch \<noteq> CHR 0x22 \<and> ch \<noteq> CHR '';''"
  unfolding is_space_def by auto

lemma scan_blank_space:
  assumes "normal_mode s" "is_space ch"
  shows "scan s (ch # rest) = scan (s\<lparr>current := current s @ [ch]\<rparr>) rest"
  using assms(1) space_not_special[OF assms(2)] by (simp add: scan_normal_step)

lemma scan_blank_semi:
  assumes "normal_mode s" "\<forall>c\<in>set (current s). is_space c"
  shows "scan s (CHR '';'' # rest) = scan (s\<lparr>current := []\<rparr>) rest"
proof -
  have t: "trim (current s) = []" using assms(2) by (simp only: trim_Nil_iff)
  show ?thesis using assms(1) by (simp add: scan_normal_step t)
qed

lemma blank_state_step:
  "blank_state s \<Longrightarrow> blank_state (s\<lparr>current := []\<rparr>)"
  "blank_state s \<Longrightarrow> is_space ch \<Longrightarrow> blank_state (s\<lparr>current := current s @ [ch]\<rparr>)"
  by (simp_all add: blank_state_def normal_mode_def)

lemma scan_blank:
  "blank_state s \<Longrightarrow> \<forall>c\<in>set t. is_space c \<or> c = CHR '';''
   \<Longrightarrow> statements (scan s t) = statements s \<and> blank_state (scan s t)"
proof (induction t arbitrary: s)
  case Nil then show ?case by simp
next
  case (Cons ch rest)
  have r: "\<forall>c\<in>set rest. is_space c \<or> c = CHR '';''" using Cons.prems(2) by simp
  show ?case
  proof (cases "ch = CHR '';''")
    case True
    have "scan s (ch # rest) = scan (s\<lparr>current := []\<rparr>) rest"
      unfolding True using Cons.prems(1) by (intro scan_blank_semi) (simp_all add: blank_state_def)
    then show ?thesis
      using Cons.IH[OF blank_state_step(1)[OF Cons.prems(1)] r] by simp
  next
    case False
    then have sp: "is_space ch" using Cons.prems(2) by simp
    have "scan s (ch # rest) = scan (s\<lparr>current := current s @ [ch]\<rparr>) rest"
      using Cons.prems(1) sp by (intro scan_blank_space) (simp_all add: blank_state_def)
    then show ?thesis
      using Cons.IH[OF blank_state_step(2)[OF Cons.prems(1) sp] r] by simp
  qed
qed

lemma split_blank:
  assumes "\<forall>c\<in>set t. is_space c \<or> c = CHR '';''"
  shows "splitSqlStatements t = []"
proof -
  have "blank_state scan_init"
    by (simp add: blank_state_def normal_mode_def scan_init_def)
  from scan_blank[OF this assms]
  have "statements (scan scan_init t) = []" "trim (current (scan scan_init t)) = []"
    by (simp_all add: trim_Nil_iff scan_init_def blank_state_def)
  then show ?thesis
    by (simp add: splitSqlStatements_def finish_def)
qed

lemma scan_current_cases:
  "(current (scan s t) = current s @ t \<and> statements (scan s t) = statements s)
   \<or> length (current (scan s t)) < length t"
proof (induction "length t" arbitrary: t s rule: less_induct)
  case less
  show ?case
  proof (cases t)
    case Nil then show ?thesis by simp
  next
    case (Cons ch rest)
    have l1: "length rest < length t" and l2: "length (tl rest) < length t" using Cons by simp_all
    note ih1 = less.hyps[OF l1] and ih2 = less.hyps[OF l2]
    define G where "G = (\<lambda>u::scan_state. (current u = current s @ t \<and> statements u = statements s)
        \<or> length (current u) < length t)"
    have step1: "G (scan s' rest)"
      if "current s' = current s @ [ch]" "statements s' = statements s" for s'
      using ih1[of s'] that Cons by (auto simp: G_def)
    have step2: "G (scan s' (tl rest))"
      if "current s' = current s @ [ch, n]" "statements s' = statements s"
         "(case rest of [] \<Rightarrow> None | n # _ \<Rightarrow> Some n) = Some n" for s' n
    proof -
      from that(3) obtain r where r: "rest = n # r" by (cases rest) auto
      show ?thesis using ih2[of s'] that(1,2) r Cons by (auto simp: G_def)
    qed
    have step3: "G (scan s' rest)" if "current s' = []" for s'
      using ih1[of s'] that Cons by (auto simp: G_def)
    have "G (scan s (ch # rest))"
    proof (cases s rule: scan_modes)
      case line then show ?thesis
        by (simp add: scan_line_step step1)
    next
      case block then show ?thesis
        by (simp add: scan_block_step step1 step2)
    next
      case squote then show ?thesis
        by (simp add: scan_squote_step step1 step2)
    next
      case dquote then show ?thesis
        by (simp add: scan_dquote_step step1 step2)
    next
      case normal then show ?thesis
        by (simp add: scan_normal_step Let_def step1 step2 step3)
    qed
    then show ?thesis unfolding G_def Cons .
  qed
qed

lemma scan_open_block_comment:
  assumes "normal_mode s" "\<not> has_pair (CHR ''*'') (CHR ''/'') t"
  shows "scan s (''/*'' @ t) = s\<lparr>current := current s @ ''/*'' @ t, inBlockComment := True\<rparr>"
proof -
  have "scan s (''/*'' @ t) = scan (s\<lparr>current := current s @ ''/*'', inBlockComment := True\<rparr>) t"
    using assms(1) by (simp add: scan_normal_step)
  also have "\<dots> = s\<lparr>current := current s @ ''/*'', inBlockComment := True\<rparr>
       \<lparr>current := current (s\<lparr>current := current s @ ''/*'', inBlockComment := True\<rparr>) @ t\<rparr>"
    using assms by (intro scan_in_block_comment) (simp_all add: normal_mode_def)
  finally show ?thesis by simp
qed

lemma trim_not_Nil: "c \<in> set x \<Longrightarrow> \<not> is_space c \<Longrightarrow> trim x \<noteq> []"
  by (auto simp: trim_Nil_iff)

lemma finish_open_block_comment:
  assumes "normal_mode s" "\<not> has_pair (CHR ''*'') (CHR ''/'') t"
  shows "finish (scan s (''/*'' @ t)) = statements s @ [trim (current s @ ''/*'' @ t)]"
proof -
  have "\<not> is_space (CHR ''/'')" by (simp add: is_space_def)
  then have "trim (current s @ ''/*'' @ t) \<noteq> []"
    by (intro trim_not_Nil[of "CHR ''/''"]) simp_all
  then show ?thesis
    unfolding scan_open_block_comment[OF assms] by (simp add: finish_def)
qed

section \<open>Properties of query execution\<close>


lemma error_result_props:
  assumes "error_result sys cr req q e st = (r, st')"
  shows "error r" "results r = []" "messages r = [Message (error_text e)]" "query_text r = q"
    "cols r = []" "rawError r = Some e" "trace st' = trace st" "conn st' = conn st"
  using assms
  by (auto simp: error_result_def createResultId_def split: prod.splits option.splits)

lemma run_statement_query_text:
  "run_statement sys cr req q st = (r, st') \<Longrightarrow> query_text r = q"
  by (auto simp: run_statement_def Let_def error_result_def split: prod.splits sum.splits option.splits if_splits)

lemma query_loop_acc:
  "query_loop sys cr req qs st acc =
     (acc @ fst (query_loop sys cr req qs st []), snd (query_loop sys cr req qs st []))"
proof (induction qs arbitrary: st acc)
  case Nil show ?case by simp
next
  case (Cons q qs)
  obtain r st1 where rs: "run_statement sys cr req q st = (r, st1)" by (cases "run_statement sys cr req q st")
  show ?case
  proof (cases "error r")
    case True then show ?thesis using rs by simp
  next
    case False
    then show ?thesis using rs Cons.IH[of st1 "acc @ [r]"] Cons.IH[of st1 "[r]"] by simp
  qed
qed

lemma query_loop_Cons:
  assumes "run_statement sys cr req q st = (r, st')"
  shows "query_loop sys cr req (q # ps) st [] =
      (if error r then ([r], st')
       else (r # fst (query_loop sys cr req ps st' []), snd (query_loop sys cr req ps st' [])))"
  using assms query_loop_acc[of sys cr req ps st' "[r]"] by simp

lemma query_loop_ok_append:
  "query_loop sys cr req pre st [] = (rs, st1) \<Longrightarrow> list_all (\<lambda>r. \<not> error r) rs \<Longrightarrow>
   query_loop sys cr req (pre @ post) st [] =
           (rs @ fst (query_loop sys cr req post st1 []), snd (query_loop sys cr req post st1 []))
   \<and> map query_text rs = pre"
proof (induction pre arbitrary: st rs)
  case Nil
  then show ?case by simp
next
  case (Cons q pre)
  obtain r st' where r: "run_statement sys cr req q st = (r, st')"
    by (cases "run_statement sys cr req q st")
  note p = Cons.prems(1)[unfolded query_loop_Cons[OF r]]
  have ne: "\<not> error r" using p Cons.prems(2) by (auto split: if_splits)
  define rs' where "rs' = fst (query_loop sys cr req pre st' [])"
  have eq: "rs = r # rs'" and l: "query_loop sys cr req pre st' [] = (rs', st1)"
    using p ne by (auto simp: rs'_def)
  have ok: "list_all (\<lambda>r. \<not> error r) rs'" using Cons.prems(2) eq by simp
  have "query_loop sys cr req ((q # pre) @ post) st [] =
     (r # fst (query_loop sys cr req (pre @ post) st' []), snd (query_loop sys cr req (pre @ post) st' []))"
    using ne query_loop_Cons[OF r, of "pre @ post"] by simp
  then show ?case using Cons.IH[OF l ok] eq run_statement_query_text[OF r] by simp
qed

lemma run_statement_failure:
  assumes "runSingleQuery sys cr q st = (Inl e, st1)"
  shows "run_statement sys cr req q st = error_result sys cr req q e st1"
  using assms by (simp add: run_statement_def)


lemmas split_eval = splitSqlStatements_def finish_def scan_init_def trim_def is_space_def scan.simps

lemmas demo_eval = demo_sys_def demo_credentials_def open_driver_def fresh_driver_def
  run_statement_def runSingleQuery_def open_connection_def error_result_def createResultId_def
  isResultSetQuery_def matches_keyword_def result_set_keywords_def is_word_char_def
  lower_char_def is_lower_def is_upper_def is_digit_def error_text_def Let_def



lemma lower_char_word:
  "is_lower (lower_char c) \<Longrightarrow> is_word_char c"
proof (cases "is_upper c")
  case True then show ?thesis by (simp add: is_word_char_def)
next
  case False
  then have "lower_char c = c"
    unfolding lower_char_def is_upper_def by (auto split: option.splits dest: map_of_SomeD set_zip_leftD)
  moreover assume "is_lower (lower_char c)"
  ultimately show ?thesis by (simp add: is_word_char_def)
qed

lemma dropWhile_head: "(case dropWhile P t of [] \<Rightarrow> True | c # _ \<Rightarrow> \<not> P c)"
  by (induction t) auto

lemma matches_keyword_iff:
  assumes kw: "\<forall>c\<in>set kw. is_lower c"
  shows "matches_keyword kw t \<longleftrightarrow> map lower_char (takeWhile is_word_char t) = kw"
proof
  assume m: "matches_keyword kw t"
  define n where "n = length kw"
  have len: "n \<le> length t" and eq: "map lower_char (take n t) = kw"
    and nx: "(case drop n t of [] \<Rightarrow> True | c # _ \<Rightarrow> \<not> is_word_char c)"
    using m by (simp_all add: matches_keyword_def n_def)
  have "\<forall>c\<in>set (take n t). is_word_char c"
  proof
    fix c assume "c \<in> set (take n t)"
    then have "lower_char c \<in> set kw" using eq by force
    then show "is_word_char c" using kw lower_char_word by blast
  qed
  moreover have "t = take n t @ drop n t" by simp
  ultimately have "takeWhile is_word_char t = take n t"
    using nx
    by (cases "drop n t") (metis append_Nil2 takeWhile_eq_all_conv, 
        metis list.simps(5) takeWhile_tail takeWhile_eq_all_conv takeWhile_append1 takeWhile_append2 takeWhile.simps(2) append_Nil2)
  then show "map lower_char (takeWhile is_word_char t) = kw" using eq by simp
next
  assume e: "map lower_char (takeWhile is_word_char t) = kw"
  define u where "u = takeWhile is_word_char t"
  have lu: "length u = length kw" using e by (auto simp: u_def)
  have t: "t = u @ dropWhile is_word_char t" by (simp add: u_def)
  have tk: "take (length kw) t = u"
    by (subst t) (simp add: lu[symmetric])
  have dr: "drop (length kw) t = dropWhile is_word_char t"
    by (subst t) (simp add: lu[symmetric])
  have "case dropWhile is_word_char t of [] \<Rightarrow> True | c # _ \<Rightarrow> \<not> is_word_char c"
    by (rule dropWhile_head)
  moreover have "length kw \<le> length t" by (subst t) (simp add: lu)
  ultimately show "matches_keyword kw t"
    using e by (simp add: matches_keyword_def tk dr u_def)
qed

lemma isResultSetQuery_leading_keyword:
  "isResultSetQuery q \<longleftrightarrow> leading_keyword q \<in> set result_set_keywords"
proof -
  have kws: "\<forall>kw\<in>set result_set_keywords. \<forall>c\<in>set kw. is_lower c"
    by (simp add: result_set_keywords_def is_lower_def)
  have "isResultSetQuery q \<longleftrightarrow> (\<exists>kw\<in>set result_set_keywords. matches_keyword kw (trim q))"
    by (simp add: isResultSetQuery_def list_ex_iff)
  also have "\<dots> \<longleftrightarrow> (\<exists>kw\<in>set result_set_keywords. map lower_char (takeWhile is_word_char (trim q)) = kw)"
    using kws matches_keyword_iff by blast
  also have "\<dots> \<longleftrightarrow> leading_keyword q \<in> set result_set_keywords"
    by (auto simp: leading_keyword_def toLowerCase_def)
  finally show ?thesis .
qed


lemma run_statement_zero_rows:
  assumes "runSingleQuery sys cr q st = (Inr [], st1)"
  shows "\<exists>r st2. run_statement sys cr req q st = (r, st2) \<and> \<not> error r \<and> results r = [] \<and> cols r = []
            \<and> messages r = (if isResultSetQuery q then []
                             else [Message ''Statement executed successfully.''])"
  using assms by (simp add: run_statement_def Let_def split: prod.splits)

lemma run_statement_error:
  assumes "run_statement sys cr req q st = (r, st2)" "error r"
  shows "results r = [] \<and> (\<exists>e. rawError r = Some e \<and> messages r = [Message (error_text e)])"
proof (cases "runSingleQuery sys cr q st")
  case (Pair x st1)
  show ?thesis
  proof (cases x)
    case (Inl e)
    then have "error_result sys cr req q e st1 = (r, st2)"
      using assms(1) Pair by (simp add: run_statement_def)
    from error_result_props[OF this] show ?thesis by simp
  next
    case (Inr rows)
    obtain rid st3 where c: "createResultId sys st1 = (rid, st3)" by (cases "createResultId sys st1")
    show ?thesis
    proof (cases "if rows \<noteq> [] then object_keys (hd rows) else Some []")
      case None
      then have "error_result sys cr req q
          (JSError ''TypeError'' ''Cannot convert undefined or null to object'') st3 = (r, st2)"
        using assms(1) Pair Inr c by (simp add: run_statement_def Let_def)
      from error_result_props[OF this] show ?thesis by simp
    next
      case (Some ks)
      then have "\<not> error r"
        using assms(1) Pair Inr c by (auto simp add: run_statement_def Let_def)
      with assms(2) show ?thesis by simp
    qed
  qed
qed


section \<open>Properties of the executable resolver and of open\<close>


lemma validate_effects:
  assumes "validateExecutablePath sys p st = (r, st1)"
  shows "conn st1 = conn st"
    and "\<exists>evs. trace st1 = trace st @ evs \<and> set evs \<subseteq> {FsExists p, Spawn p [''--version'']}"
proof -
  show "conn st1 = conn st"
    using assms
    by (auto simp: validateExecutablePath_def Let_def split: if_splits prod.splits exec_result.splits)
  show "\<exists>evs. trace st1 = trace st @ evs \<and> set evs \<subseteq> {FsExists p, Spawn p [''--version'']}"
    using assms
    by (auto simp: validateExecutablePath_def Let_def split: if_splits prod.splits exec_result.splits)
qed

lemma try_candidates_conn:
  "try_candidates sys cs attempts st = (r, st1) \<Longrightarrow> conn st1 = conn st"
proof (induction cs arbitrary: attempts st)
  case Nil then show ?case by simp
next
  case (Cons c cs)
  obtain v st' where v: "validateExecutablePath sys c st = (v, st')"
    by (cases "validateExecutablePath sys c st")
  show ?case
  proof (cases v)
    case None
    then show ?thesis using Cons.prems v validate_effects(1)[OF v] by simp
  next
    case (Some e)
    then have "try_candidates sys cs (attempts @ [c @ '' -> '' @ error_text e]) st' = (r, st1)"
      using Cons.prems v by simp
    from Cons.IH[OF this] show ?thesis using validate_effects(1)[OF v] by simp
  qed
qed

lemma getEnvironmentExecutablePath_conn:
  "getEnvironmentExecutablePath sys st = (p, st0) \<Longrightarrow> conn st0 = conn st"
  by (auto simp: getEnvironmentExecutablePath_def Let_def split: if_splits)

lemma resolve_conn:
  assumes "resolveExecutablePath sys cr st = (r, st1)"
  shows "conn st1 = conn st"
proof (cases "getConfiguredExecutablePath sys cr \<noteq> []")
  case True
  obtain v st' where v: "validateExecutablePath sys (getConfiguredExecutablePath sys cr) st = (v, st')"
    by (cases "validateExecutablePath sys (getConfiguredExecutablePath sys cr) st")
  have "st1 = st'" using assms True v
    by (cases v) (auto simp: resolveExecutablePath_def Let_def)
  then show ?thesis using validate_effects(1)[OF v] by simp
next
  case False
  obtain ep st0 where e: "getEnvironmentExecutablePath sys st = (ep, st0)"
    by (cases "getEnvironmentExecutablePath sys st")
  note c0 = getEnvironmentExecutablePath_conn[OF e]
  show ?thesis
  proof (cases "ep \<noteq> []")
    case True
    obtain v st' where v: "validateExecutablePath sys ep st0 = (v, st')"
      by (cases "validateExecutablePath sys ep st0")
    have "st1 = st'" using assms False True e v
      by (cases v) (auto simp: resolveExecutablePath_def Let_def)
    then show ?thesis using validate_effects(1)[OF v] c0 by simp
  next
    case ep: False
    obtain t st' where t: "try_candidates sys (getAutoExecutableCandidates sys) [] st0 = (t, st')"
      by (cases "try_candidates sys (getAutoExecutableCandidates sys) [] st0")
    have "st1 = st'" using assms False ep e t
      by (cases t) (auto simp: resolveExecutablePath_def Let_def)
    then show ?thesis using try_candidates_conn[OF t] c0 by simp
  qed
qed



lemmas resolver_eval = resolveExecutablePath_def getConfiguredExecutablePath_def
  getEnvironmentExecutablePath_def getAutoExecutableCandidates_def AUTO_EXECUTABLE_CANDIDATES_def
  validateExecutablePath_def isPathLike_def js_or_def set_add_def DUCKDB_CLI_PATH_ENV_def
  getDatabase_def isReadOnlyEnabled_def toLowerCase_def createDirIfNotExists_def
  readonly_memory_credentials_def


subsection \<open>How a statement fails\<close>


lemma runSingleQuery_spawn_failure:
  assumes "conn st = Some c"
    and "execFile sys (world st) (executablePath c)
           ([databasePath c] @ (if readOnly c then [''-readonly''] else []) @ [''-json'', ''-c'', q])
         = (ExecFail err out msg, w)"
  shows "\<exists>e st1. runSingleQuery sys cr q st = (Inl e, st1)"
  using assms by (simp add: runSingleQuery_def open_connection_def Let_def)

lemma runSingleQuery_unparsable_output:
  assumes "conn st = Some c"
    and "execFile sys (world st) (executablePath c)
           ([databasePath c] @ (if readOnly c then [''-readonly''] else []) @ [''-json'', ''-c'', q])
         = (ExecOk out, w)"
    and "trim out \<noteq> []" and "jsonParse sys out = Inl msg"
  shows "\<exists>e st1. runSingleQuery sys cr q st = (Inl e, st1)"
proof -
  have "out \<noteq> []" using assms(3) by (auto simp: trim_def)
  then show ?thesis
    using assms by (simp add: runSingleQuery_def open_connection_def Let_def)
qed

lemma runSingleQuery_open_failure:
  assumes "open_connection sys cr st = (Inl e, st1)"
  shows "runSingleQuery sys cr q st = (Inl e, st1)"
  using assms by (simp add: runSingleQuery_def)



section \<open>Properties of the completion index\<close>


lemma map_of_obj_set: "map_of (obj_set k v kvs) = (map_of kvs)(k \<mapsto> v)"
  by (induction kvs) (auto simp: fun_eq_iff)

lemma keys_obj_set:
  "map fst (obj_set k v kvs) = (if k \<in> set (map fst kvs) then map fst kvs else map fst kvs @ [k])"
  by (induction kvs) force+

lemma set_keys_obj_set: "fst ` set (obj_set k v kvs) = insert k (fst ` set kvs)"
  using keys_obj_set[of k v kvs] by (metis insert_absorb list.set_map set_append list.simps(15) Un_insert_right sup_bot.right_neutral empty_set)

lemma distinct_obj_set: "distinct (map fst kvs) \<Longrightarrow> distinct (map fst (obj_set k v kvs))"
  by (simp add: keys_obj_set)

lemma map_of_keys: "map_of kvs k = None \<longleftrightarrow> k \<notin> set (map fst kvs)"
  by (simp add: map_of_eq_None_iff)

lemma count_key:
  "distinct (map fst kvs) \<Longrightarrow> map_of kvs k = Some v \<Longrightarrow> length (filter (\<lambda>kv. fst kv = k) kvs) = 1"
proof (induction kvs)
  case Nil then show ?case by simp
next
  case (Cons a kvs)
  show ?case
  proof (cases "fst a = k")
    case True
    then have "k \<notin> set (map fst kvs)" using Cons.prems(1) by auto
    then have "filter (\<lambda>kv. fst kv = k) kvs = []" by (auto simp: filter_empty_conv)
    then show ?thesis using True by simp
  next
    case False
    then show ?thesis using Cons by (cases a) auto
  qed
qed

subsection \<open>Keyword rows\<close>

lemma addKeywordCompletion_keys:
  "set (map fst (addKeywordCompletion item c)) =
     set (map fst c) \<union> (case keyword_label item of Some l \<Rightarrow> {l} | None \<Rightarrow> {})"
  by (simp add: addKeywordCompletion_def set_keys_obj_set split: option.splits)

lemma addKeywordCompletion_distinct:
  "distinct (map fst c) \<Longrightarrow> distinct (map fst (addKeywordCompletion item c))"
  by (auto simp: addKeywordCompletion_def distinct_obj_set split: option.splits)

lemma addKeywordCompletions_snoc:
  "addKeywordCompletions (items @ [item]) c = addKeywordCompletion item (addKeywordCompletions items c)"
  by (simp add: addKeywordCompletions_def)

lemma addKeywordCompletions_keys:
  "set (map fst (addKeywordCompletions items c)) = set (map fst c) \<union> keyword_labels items"
proof (induction items rule: rev_induct)
  case Nil show ?case by (simp add: addKeywordCompletions_def keyword_labels_def)
next
  case (snoc item items)
  have "keyword_labels (items @ [item]) =
      keyword_labels items \<union> (case keyword_label item of Some l \<Rightarrow> {l} | None \<Rightarrow> {})"
    by (auto simp: keyword_labels_def split: option.splits)
  then show ?case
    unfolding addKeywordCompletions_snoc addKeywordCompletion_keys snoc.IH by auto
qed

lemma addKeywordCompletions_distinct:
  "distinct (map fst c) \<Longrightarrow> distinct (map fst (addKeywordCompletions items c))"
  by (induction items rule: rev_induct)
     (simp_all add: addKeywordCompletions_snoc addKeywordCompletion_distinct, simp add: addKeywordCompletions_def)

lemma addKeywordCompletions_entry:
  "l \<in> keyword_labels items \<Longrightarrow>
     \<exists>cat. map_of (addKeywordCompletions items c) l = Some (keyword_entry l cat)"
proof (induction items rule: rev_induct)
  case Nil then show ?case by (simp add: keyword_labels_def)
next
  case (snoc item items)
  show ?case
  proof (cases "keyword_label item = Some l")
    case True
    then show ?thesis
      by (auto simp: addKeywordCompletions_snoc addKeywordCompletion_def map_of_obj_set)
  next
    case False
    then have "l \<in> keyword_labels items" using snoc.prems by (auto simp: keyword_labels_def)
    from snoc.IH[OF this] obtain cat where
      "map_of (addKeywordCompletions items c) l = Some (keyword_entry l cat)" by blast
    then show ?thesis using False
      by (auto simp: addKeywordCompletions_snoc addKeywordCompletion_def map_of_obj_set
            split: option.splits)
  qed
qed


subsection \<open>Function rows\<close>








lemma collect_row_keys:
  "fst ` set (collect_row parse item c) =
     fst ` set c \<union> (case row_label item of Some l \<Rightarrow> {l} | None \<Rightarrow> {})"
  by (simp add: collect_row_def Let_def set_keys_obj_set split: option.splits)

lemma collect_row_distinct:
  "distinct (map fst c) \<Longrightarrow> distinct (map fst (collect_row parse item c))"
  by (simp add: collect_row_def Let_def distinct_obj_set split: option.splits)




lemma fold_collect_keys:
  "fst ` set (fold (collect_row parse) items c) = fst ` set c \<union> function_labels items"
proof (induction items arbitrary: c)
  case Nil show ?case by (simp add: function_labels_def)
next
  case (Cons item items)
  have "function_labels (item # items) =
      (case row_label item of Some l \<Rightarrow> {l} | None \<Rightarrow> {}) \<union> function_labels items"
    by (auto simp: function_labels_def split: option.splits)
  then show ?case by (simp add: Cons.IH collect_row_keys Un_assoc)
qed

lemma fold_collect_distinct:
  "distinct (map fst c) \<Longrightarrow> distinct (map fst (fold (collect_row parse) items c))"
  by (induction items arbitrary: c) (simp_all add: collect_row_distinct)


lemma collectFunctionMeta_keys:
  "fst ` set (collectFunctionMeta parse items) = function_labels items"
  by (simp add: collectFunctionMeta_def fold_collect_keys)

lemma collectFunctionMeta_distinct: "distinct (map fst (collectFunctionMeta parse items))"
  by (simp add: collectFunctionMeta_def fold_collect_distinct)



subsection \<open>Folding the metas into the index\<close>


lemma apply_meta_distinct:
  "distinct (map fst c) \<Longrightarrow> distinct (map fst (apply_meta lm c))"
  by (cases lm) (simp add: apply_meta_def distinct_obj_set split: option.splits)

lemma apply_meta_other:
  "l \<noteq> k \<Longrightarrow> map_of (apply_meta (l, m) c) k = map_of c k"
  by (simp add: apply_meta_def map_of_obj_set split: option.splits)

lemma apply_meta_existing:
  "map_of c l = Some e \<Longrightarrow>
     map_of (apply_meta (l, m) c) l =
       Some (e\<lparr>documentation :=
                 Some \<lparr>doc_value = merged_doc e (function_doc l m), doc_kind = ''markdown''\<rparr>\<rparr>)"
  by (simp add: apply_meta_def map_of_obj_set)

lemma apply_meta_new:
  "map_of c l = None \<Longrightarrow> map_of (apply_meta (l, m) c) l = Some (function_entry l m)"
  by (simp add: apply_meta_def map_of_obj_set)

lemma fold_apply_meta_distinct:
  "distinct (map fst c) \<Longrightarrow> distinct (map fst (fold apply_meta ms c))"
  by (induction ms arbitrary: c) (simp_all add: apply_meta_distinct)


lemma fold_apply_meta_untouched:
  "k \<notin> fst ` set ms \<Longrightarrow> map_of (fold apply_meta ms c) k = map_of c k"
proof (induction ms arbitrary: c)
  case Nil show ?case by simp
next
  case (Cons lm ms)
  obtain l m where lm: "lm = (l, m)" by (cases lm)
  have "l \<noteq> k" "k \<notin> fst ` set ms" using Cons.prems lm by auto
  then show ?case using Cons.IH[of "apply_meta lm c"] by (simp add: lm apply_meta_other)
qed

lemma fold_apply_meta_existing:
  assumes "distinct (map fst ms)" "map_of ms l = Some m" "map_of c l = Some e"
  shows "map_of (fold apply_meta ms c) l =
           Some (e\<lparr>documentation :=
                     Some \<lparr>doc_value = merged_doc e (function_doc l m), doc_kind = ''markdown''\<rparr>\<rparr>)"
  using assms
proof (induction ms arbitrary: c)
  case Nil then show ?case by simp
next
  case (Cons km ms)
  obtain k m0 where km: "km = (k, m0)" by (cases km)
  show ?case
  proof (cases "k = l")
    case True
    then have m0: "m0 = m" using Cons.prems(2) km by simp
    have "l \<notin> fst ` set ms" using Cons.prems(1) km True by auto
    from fold_apply_meta_untouched[OF this, of "apply_meta km c"]
    show ?thesis using apply_meta_existing[OF Cons.prems(3), of m] by (simp add: km True m0)
  next
    case False
    then have "map_of ms l = Some m" using Cons.prems(2) km by simp
    moreover have "map_of (apply_meta km c) l = Some e"
      using False Cons.prems(3) by (simp add: km apply_meta_other)
    moreover have "distinct (map fst ms)" using Cons.prems(1) by simp
    ultimately show ?thesis using Cons.IH[of "apply_meta km c"] by simp
  qed
qed

lemma fold_apply_meta_new:
  assumes "distinct (map fst ms)" "map_of ms l = Some m" "map_of c l = None"
  shows "map_of (fold apply_meta ms c) l = Some (function_entry l m)"
  using assms
proof (induction ms arbitrary: c)
  case Nil then show ?case by simp
next
  case (Cons km ms)
  obtain k m0 where km: "km = (k, m0)" by (cases km)
  show ?case
  proof (cases "k = l")
    case True
    then have m0: "m0 = m" using Cons.prems(2) km by simp
    have "l \<notin> fst ` set ms" using Cons.prems(1) km True by auto
    from fold_apply_meta_untouched[OF this, of "apply_meta km c"]
    show ?thesis using apply_meta_new[OF Cons.prems(3), of m] by (simp add: km True m0)
  next
    case False
    then have "map_of ms l = Some m" using Cons.prems(2) km by simp
    moreover have "map_of (apply_meta km c) l = None"
      using False Cons.prems(3) by (simp add: km apply_meta_other)
    moreover have "distinct (map fst ms)" using Cons.prems(1) by simp
    ultimately show ?thesis using Cons.IH[of "apply_meta km c"] by simp
  qed
qed

lemma fold_apply_meta_frame:
  assumes "map_of c l = Some e"
  shows "\<exists>e'. map_of (fold apply_meta ms c) l = Some e' \<and> label e' = label e
           \<and> detail e' = detail e \<and> filterText e' = filterText e \<and> sortText e' = sortText e"
  using assms
proof (induction ms arbitrary: c e)
  case Nil then show ?case by simp
next
  case (Cons km ms)
  obtain k m0 where km: "km = (k, m0)" by (cases km)
  have "\<exists>e1. map_of (apply_meta km c) l = Some e1 \<and> label e1 = label e
           \<and> detail e1 = detail e \<and> filterText e1 = filterText e \<and> sortText e1 = sortText e"
  proof (cases "k = l")
    case True
    then show ?thesis using apply_meta_existing[OF Cons.prems, of m0] by (simp add: km)
  next
    case False
    then show ?thesis using Cons.prems by (simp add: km apply_meta_other)
  qed
  then obtain e1 where e1: "map_of (apply_meta km c) l = Some e1" "label e1 = label e"
    "detail e1 = detail e" "filterText e1 = filterText e" "sortText e1 = sortText e" by blast
  from Cons.IH[OF e1(1)] show ?case using e1 by auto
qed



lemma trim_id:
  assumes "s \<noteq> []" "\<not> is_space (hd s)" "\<not> is_space (last s)"
  shows "trim s = s"
proof -
  have a: "dropWhile is_space s = s" using assms(1,2) by (cases s) auto
  have "rev s \<noteq> []" "hd (rev s) = last s" using assms(1) by (simp_all add: hd_rev)
  then have b: "dropWhile is_space (rev s) = rev s" using assms(3) by (simp add: dropWhile_eq_self_iff)
  show ?thesis by (simp add: trim_def a b)
qed

lemma trim_keyword_doc: "trim (keyword_doc l cat) = keyword_doc l cat" "keyword_doc l cat \<noteq> []"
proof -
  show ne: "keyword_doc l cat \<noteq> []" by (simp add: keyword_doc_def)
  have "hd (keyword_doc l cat) = CHR 0x60" "last (keyword_doc l cat) = CHR 0x60"
    by (simp_all add: keyword_doc_def)
  then show "trim (keyword_doc l cat) = keyword_doc l cat"
    using ne by (intro trim_id) (simp_all add: is_space_def)
qed

lemma merged_doc_keyword_entry:
  "merged_doc (keyword_entry l cat) d = keyword_doc l cat @ ''\<newline>\<newline>'' @ d"
  by (simp add: merged_doc_def keyword_entry_def trim_keyword_doc)

lemma keyword_labels_eval: "keyword_labels items = {l. Some l \<in> set (map keyword_label items)}"
  by (force simp: keyword_labels_def image_iff)

lemma function_labels_eval: "function_labels items = {l. Some l \<in> set (map row_label items)}"
  by (force simp: function_labels_def image_iff)

lemma demo_keyword_labels:
  "map keyword_label demo_keyword_rows = [Some ''AND'', Some ''SELECT'', Some ''NOW'']"
  by code_simp

lemma demo_function_labels:
  "map row_label demo_function_rows = [Some ''ABS'', Some ''NOW'', Some ''NOW'']"
  by code_simp


subsection \<open>Tags\<close>

text \<open>
  With a parser that behaves as \<open>JSON.parse\<close> does, \<open>tag_strings\<close> is the recursion of the source,
  without the guard on the length.
\<close>

lemma tag_strings_unguarded:
  assumes "shrinking parse"
  shows "tag_strings parse s =
           (let trimmed = trim s
            in if trimmed = [] then []
               else (case parse trimmed of Inl _ \<Rightarrow> [trimmed] | Inr v \<Rightarrow> toTagArray parse v))"
proof (cases "trim s = []")
  case True
  then show ?thesis by (subst tag_strings.simps) simp
next
  case False
  have u: "tag_strings parse s =
      (case parse (trim s) of
         Inl _ \<Rightarrow> [trim s]
       | Inr (JStr s') \<Rightarrow> if length s' < length (trim s) then tag_strings parse s' else [trim s]
       | Inr v \<Rightarrow> tags_of_value v)"
    using False by (subst tag_strings.simps) (simp add: Let_def)
  show ?thesis
  proof (cases "parse (trim s)")
    case (Inl a)
    then show ?thesis using False by (simp add: u)
  next
    case (Inr v)
    have "length s' < length (trim s)" if "v = JStr s'" for s'
      using assms Inr that by (auto simp: shrinking_def)
    then show ?thesis using False Inr
      by (cases v) (simp_all add: u toTagArray_def)
  qed
qed

lemma index_keyword_sortText:
  assumes "l \<in> keyword_labels kitems"
  shows "\<exists>e. map_of (addFunctionCompletions parse fitems (addKeywordCompletions kitems [])) l = Some e
           \<and> sortText e = (if l \<in> set PRIORITIZED_SQL_WORDS then ''2:'' else ''4:'') @ l"
proof -
  from addKeywordCompletions_entry[OF assms, of "[]"] obtain cat where
    c: "map_of (addKeywordCompletions kitems []) l = Some (keyword_entry l cat)" by blast
  from fold_apply_meta_frame[OF c, of "collectFunctionMeta parse fitems"] obtain e where
    "map_of (fold apply_meta (collectFunctionMeta parse fitems) (addKeywordCompletions kitems [])) l = Some e"
    "sortText e = sortText (keyword_entry l cat)"
    by blast
  then show ?thesis by (simp add: addFunctionCompletions_def keyword_entry_def)
qed

lemma index_function_sortText:
  assumes "f \<in> function_labels fitems" "f \<notin> keyword_labels kitems"
  shows "\<exists>e. map_of (addFunctionCompletions parse fitems (addKeywordCompletions kitems [])) f = Some e
           \<and> sortText e = ''3:'' @ f"
proof -
  define c0 where "c0 = addKeywordCompletions kitems []"
  define ms where "ms = collectFunctionMeta parse fitems"
  have "f \<notin> fst ` set c0"
    using assms(2) addKeywordCompletions_keys[of kitems "[]"] by (simp add: c0_def)
  then have nf: "map_of c0 f = None" by (simp add: map_of_eq_None_iff)
  have "f \<in> fst ` set ms" using assms(1) by (simp add: ms_def collectFunctionMeta_keys)
  then obtain m where m: "map_of ms f = Some m"
    by (metis map_of_eq_None_iff not_Some_eq)
  have d: "distinct (map fst ms)" by (simp add: ms_def collectFunctionMeta_distinct)
  have "map_of (fold apply_meta ms c0) f = Some (function_entry f m)"
    by (rule fold_apply_meta_new[OF d m nf])
  then show ?thesis
    unfolding addFunctionCompletions_def c0_def[symmetric] ms_def[symmetric]
    by (simp add: function_entry_def)
qed

lemma sort_prefix_order:
  "(''2:'' @ a :: string) < ''3:'' @ b" "(''3:'' @ a :: string) < ''4:'' @ b"
  "(''2:'' @ a :: string) < ''4:'' @ b"
  by simp_all


section \<open>The splitter and the shape of the script\<close>

subsection \<open>The scanner on the regions of the text\<close>

lemma scan_line_body:
  "inLineComment s \<Longrightarrow> CHR 0x0A \<notin> set body \<Longrightarrow>
     scan s (body @ CHR 0x0A # t) = scan (s\<lparr>current := current s @ body @ [CHR 0x0A], inLineComment := False\<rparr>) t"
proof (induction body arbitrary: s)
  case Nil
  then show ?case by (simp add: scan_line_step)
next
  case (Cons c body)
  have "scan s ((c # body) @ CHR 0x0A # t) = scan (s\<lparr>current := current s @ [c]\<rparr>) (body @ CHR 0x0A # t)"
    using Cons.prems by (auto simp: scan_line_step)
  also have "\<dots> = scan (s\<lparr>current := current s @ [c]\<rparr>
        \<lparr>current := current (s\<lparr>current := current s @ [c]\<rparr>) @ body @ [CHR 0x0A], inLineComment := False\<rparr>) t"
    using Cons.prems by (intro Cons.IH) auto
  finally show ?case by simp
qed

lemma scan_block_body:
  "inBlockComment s \<Longrightarrow> \<not> inLineComment s \<Longrightarrow> \<not> has_pair (CHR ''*'') (CHR ''/'') body \<Longrightarrow>
     scan s (body @ ''*/'' @ t) = scan (s\<lparr>current := current s @ body @ ''*/'', inBlockComment := False\<rparr>) t"
proof (induction body arbitrary: s)
  case Nil
  then show ?case by (simp add: scan_block_step)
next
  case (Cons c body)
  have np: "\<not> has_pair (CHR ''*'') (CHR ''/'') body" using Cons.prems(3) by (cases body) auto
  have nx: "\<not> (c = CHR ''*'' \<and> (case body @ ''*/'' @ t of [] \<Rightarrow> None | n # _ \<Rightarrow> Some n) = Some (CHR ''/''))"
    using Cons.prems(3) by (cases body) auto
  have "scan s ((c # body) @ ''*/'' @ t) = scan (s\<lparr>current := current s @ [c]\<rparr>) (body @ ''*/'' @ t)"
    using Cons.prems(1,2) nx by (auto simp: scan_block_step)
  also have "\<dots> = scan (s\<lparr>current := current s @ [c]\<rparr>
        \<lparr>current := current (s\<lparr>current := current s @ [c]\<rparr>) @ body @ ''*/'', inBlockComment := False\<rparr>) t"
    using Cons.prems np by (intro Cons.IH) auto
  finally show ?case by simp
qed

lemma scan_squote_body:
  "inSingleQuote s \<Longrightarrow> \<not> inLineComment s \<Longrightarrow> \<not> inBlockComment s \<Longrightarrow> quoted_body (CHR 0x27) body
     \<Longrightarrow> \<not> starts_with (CHR 0x27) t \<Longrightarrow>
     scan s (body @ CHR 0x27 # t) =
       scan (s\<lparr>current := current s @ body @ [CHR 0x27], inSingleQuote := False\<rparr>) t"
proof (induction "CHR 0x27" body arbitrary: s rule: quoted_body.induct)
  case 1
  then show ?case by (cases t) (simp_all add: scan_squote_step)
next
  case (2 c)
  then show ?case by (cases t) (simp_all add: scan_squote_step)
next
  case (3 c d r)
  show ?case
  proof (cases "c = CHR 0x27")
    case True
    then have d: "d = CHR 0x27" and qb: "quoted_body (CHR 0x27) r" using "3.prems"(4) by simp_all
    have "scan s ((c # d # r) @ CHR 0x27 # t) = scan (s\<lparr>current := current s @ [c, d]\<rparr>) (r @ CHR 0x27 # t)"
      using "3.prems"(1,2,3) True d by (simp add: scan_squote_step)
    also have "\<dots> = scan (s\<lparr>current := current s @ [c, d]\<rparr>
          \<lparr>current := current (s\<lparr>current := current s @ [c, d]\<rparr>) @ r @ [CHR 0x27], inSingleQuote := False\<rparr>) t"
      using "3.prems" True qb by (intro "3.hyps"(1)) auto
    finally show ?thesis by simp
  next
    case False
    then have qb: "quoted_body (CHR 0x27) (d # r)" using "3.prems"(4) by simp
    have "scan s ((c # d # r) @ CHR 0x27 # t) = scan (s\<lparr>current := current s @ [c]\<rparr>) ((d # r) @ CHR 0x27 # t)"
      using "3.prems"(1,2,3) False by (simp add: scan_squote_step)
    also have "\<dots> = scan (s\<lparr>current := current s @ [c]\<rparr>
          \<lparr>current := current (s\<lparr>current := current s @ [c]\<rparr>) @ (d # r) @ [CHR 0x27], inSingleQuote := False\<rparr>) t"
      using "3.prems" False qb by (intro "3.hyps"(2)) auto
    finally show ?thesis by simp
  qed
qed

lemma scan_dquote_body:
  "inDoubleQuote s \<Longrightarrow> \<not> inLineComment s \<Longrightarrow> \<not> inBlockComment s \<Longrightarrow> \<not> inSingleQuote s
     \<Longrightarrow> quoted_body (CHR 0x22) body \<Longrightarrow> \<not> starts_with (CHR 0x22) t \<Longrightarrow>
     scan s (body @ CHR 0x22 # t) =
       scan (s\<lparr>current := current s @ body @ [CHR 0x22], inDoubleQuote := False\<rparr>) t"
proof (induction "CHR 0x22" body arbitrary: s rule: quoted_body.induct)
  case 1
  then show ?case by (cases t) (simp_all add: scan_dquote_step)
next
  case (2 c)
  then show ?case by (cases t) (simp_all add: scan_dquote_step)
next
  case (3 c d r)
  show ?case
  proof (cases "c = CHR 0x22")
    case True
    then have d: "d = CHR 0x22" and qb: "quoted_body (CHR 0x22) r" using "3.prems"(5) by simp_all
    have "scan s ((c # d # r) @ CHR 0x22 # t) = scan (s\<lparr>current := current s @ [c, d]\<rparr>) (r @ CHR 0x22 # t)"
      using "3.prems"(1,2,3,4) True d by (simp add: scan_dquote_step)
    also have "\<dots> = scan (s\<lparr>current := current s @ [c, d]\<rparr>
          \<lparr>current := current (s\<lparr>current := current s @ [c, d]\<rparr>) @ r @ [CHR 0x22], inDoubleQuote := False\<rparr>) t"
      using "3.prems" True qb by (intro "3.hyps"(1)) auto
    finally show ?thesis by simp
  next
    case False
    then have qb: "quoted_body (CHR 0x22) (d # r)" using "3.prems"(5) by simp
    have "scan s ((c # d # r) @ CHR 0x22 # t) = scan (s\<lparr>current := current s @ [c]\<rparr>) ((d # r) @ CHR 0x22 # t)"
      using "3.prems"(1,2,3,4) False by (simp add: scan_dquote_step)
    also have "\<dots> = scan (s\<lparr>current := current s @ [c]\<rparr>
          \<lparr>current := current (s\<lparr>current := current s @ [c]\<rparr>) @ (d # r) @ [CHR 0x22], inDoubleQuote := False\<rparr>) t"
      using "3.prems" False qb by (intro "3.hyps"(2)) auto
    finally show ?thesis by simp
  qed
qed

lemma scan_squote_open:
  "inSingleQuote s \<Longrightarrow> \<not> inLineComment s \<Longrightarrow> \<not> inBlockComment s \<Longrightarrow> quoted_body (CHR 0x27) body
     \<Longrightarrow> scan s body = s\<lparr>current := current s @ body\<rparr>"
proof (induction "CHR 0x27" body arbitrary: s rule: quoted_body.induct)
  case 1 then show ?case by simp
next
  case (2 c) then show ?case by (simp add: scan_squote_step)
next
  case (3 c d r)
  show ?case
  proof (cases "c = CHR 0x27")
    case True
    then have d: "d = CHR 0x27" and qb: "quoted_body (CHR 0x27) r" using "3.prems"(4) by simp_all
    have "scan s (c # d # r) = scan (s\<lparr>current := current s @ [c, d]\<rparr>) r"
      using "3.prems"(1,2,3) True d by (simp add: scan_squote_step)
    also have "\<dots> = s\<lparr>current := current s @ [c, d]\<rparr>
          \<lparr>current := current (s\<lparr>current := current s @ [c, d]\<rparr>) @ r\<rparr>"
      using "3.prems" True qb by (intro "3.hyps"(1)) auto
    finally show ?thesis by simp
  next
    case False
    then have qb: "quoted_body (CHR 0x27) (d # r)" using "3.prems"(4) by simp
    have "scan s (c # d # r) = scan (s\<lparr>current := current s @ [c]\<rparr>) (d # r)"
      using "3.prems"(1,2,3) False by (simp add: scan_squote_step)
    also have "\<dots> = s\<lparr>current := current s @ [c]\<rparr>
          \<lparr>current := current (s\<lparr>current := current s @ [c]\<rparr>) @ (d # r)\<rparr>"
      using "3.prems" False qb by (intro "3.hyps"(2)) auto
    finally show ?thesis by simp
  qed
qed

lemma scan_dquote_open:
  "inDoubleQuote s \<Longrightarrow> \<not> inLineComment s \<Longrightarrow> \<not> inBlockComment s \<Longrightarrow> \<not> inSingleQuote s
     \<Longrightarrow> quoted_body (CHR 0x22) body \<Longrightarrow> scan s body = s\<lparr>current := current s @ body\<rparr>"
proof (induction "CHR 0x22" body arbitrary: s rule: quoted_body.induct)
  case 1 then show ?case by simp
next
  case (2 c) then show ?case by (simp add: scan_dquote_step)
next
  case (3 c d r)
  show ?case
  proof (cases "c = CHR 0x22")
    case True
    then have d: "d = CHR 0x22" and qb: "quoted_body (CHR 0x22) r" using "3.prems"(5) by simp_all
    have "scan s (c # d # r) = scan (s\<lparr>current := current s @ [c, d]\<rparr>) r"
      using "3.prems"(1,2,3,4) True d by (simp add: scan_dquote_step)
    also have "\<dots> = s\<lparr>current := current s @ [c, d]\<rparr>
          \<lparr>current := current (s\<lparr>current := current s @ [c, d]\<rparr>) @ r\<rparr>"
      using "3.prems" True qb by (intro "3.hyps"(1)) auto
    finally show ?thesis by simp
  next
    case False
    then have qb: "quoted_body (CHR 0x22) (d # r)" using "3.prems"(5) by simp
    have "scan s (c # d # r) = scan (s\<lparr>current := current s @ [c]\<rparr>) (d # r)"
      using "3.prems"(1,2,3,4) False by (simp add: scan_dquote_step)
    also have "\<dots> = s\<lparr>current := current s @ [c]\<rparr>
          \<lparr>current := current (s\<lparr>current := current s @ [c]\<rparr>) @ (d # r)\<rparr>"
      using "3.prems" False qb by (intro "3.hyps"(2)) auto
    finally show ?thesis by simp
  qed
qed

subsection \<open>A chunk is accumulated whole\<close>

lemma normal_mode_update:
  "normal_mode s \<Longrightarrow> normal_mode (s\<lparr>current := c\<rparr>)"
  by (simp add: normal_mode_def)

lemma scan_plain_char:
  assumes "normal_mode s" "c \<noteq> CHR 0x27" "c \<noteq> CHR 0x22" "c \<noteq> CHR '';''" "\<not> starts_comment (c # t)"
  shows "scan s (c # t) = scan (s\<lparr>current := current s @ [c]\<rparr>) t"
  using assms by (cases t) (auto simp: scan_normal_step Let_def)

lemma scan_open_line_comment:
  assumes "normal_mode s"
  shows "scan s (''--'' @ t) = scan (s\<lparr>current := current s @ ''--'', inLineComment := True\<rparr>) t"
  using assms by (simp add: scan_normal_step)

lemma scan_open_block:
  assumes "normal_mode s"
  shows "scan s (''/*'' @ t) = scan (s\<lparr>current := current s @ ''/*'', inBlockComment := True\<rparr>) t"
  using assms by (simp add: scan_normal_step)

lemma scan_open_squote:
  assumes "normal_mode s"
  shows "scan s (CHR 0x27 # t) = scan (s\<lparr>current := current s @ [CHR 0x27], inSingleQuote := True\<rparr>) t"
  using assms by (cases t) (simp_all add: scan_normal_step)

lemma scan_open_dquote:
  assumes "normal_mode s"
  shows "scan s (CHR 0x22 # t) = scan (s\<lparr>current := current s @ [CHR 0x22], inDoubleQuote := True\<rparr>) t"
  using assms by (cases t) (simp_all add: scan_normal_step)

lemma absorbed_shift:
  assumes "scan s (x @ t) = scan s' t" "statements s' = statements s" "current s' = current s @ x"
    "absorbed b s' t"
  shows "absorbed b s (x @ t)"
  using assms by (simp add: absorbed_def)

lemma chunk_absorbed: "chunk b t \<Longrightarrow> normal_mode s \<Longrightarrow> absorbed b s t"
proof (induction arbitrary: s rule: chunk.induct)
  case chunk_end
  then show ?case by (simp add: absorbed_def)
next
  case (chunk_char c t b)
  have "absorbed b s ([c] @ t)"
  proof (rule absorbed_shift)
    show "scan s ([c] @ t) = scan (s\<lparr>current := current s @ [c]\<rparr>) t"
      using scan_plain_char[OF chunk_char.prems chunk_char.hyps(1,2,3,4)] by simp
    show "absorbed b (s\<lparr>current := current s @ [c]\<rparr>) t"
      by (rule chunk_char.IH) (rule normal_mode_update[OF chunk_char.prems])
  qed simp_all
  then show ?case by simp
next
  case (chunk_quoted q body t b)
  note n = chunk_quoted.prems
  have f: "\<not> inSingleQuote s" "\<not> inDoubleQuote s" "\<not> inLineComment s" "\<not> inBlockComment s"
    using n by (simp_all add: normal_mode_def)
  show ?case
  proof (cases "q = CHR 0x27")
    case True
    define s1 where "s1 = s\<lparr>current := current s @ [CHR 0x27], inSingleQuote := True\<rparr>"
    define s2 where "s2 = s1\<lparr>current := current s1 @ body @ [CHR 0x27], inSingleQuote := False\<rparr>"
    have "scan s ([q] @ body @ [q] @ t) = scan s1 (body @ CHR 0x27 # t)"
      using scan_open_squote[OF n] by (simp add: True s1_def)
    also have "\<dots> = scan s2 t"
      unfolding s2_def using chunk_quoted.hyps(2,3) f True
      by (intro scan_squote_body) (simp_all add: s1_def)
    finally have e: "scan s (([q] @ body @ [q]) @ t) = scan s2 t" by simp
    have n2: "normal_mode s2" using f by (simp add: s2_def s1_def normal_mode_def)
    have "absorbed b s (([q] @ body @ [q]) @ t)"
      using e
    proof (rule absorbed_shift)
      show "absorbed b s2 t" by (rule chunk_quoted.IH[OF n2])
    qed (simp_all add: s2_def s1_def True)
    then show ?thesis by simp
  next
    case False
    then have q: "q = CHR 0x22" using chunk_quoted.hyps(1) by (simp add: is_quote_def)
    define s1 where "s1 = s\<lparr>current := current s @ [CHR 0x22], inDoubleQuote := True\<rparr>"
    define s2 where "s2 = s1\<lparr>current := current s1 @ body @ [CHR 0x22], inDoubleQuote := False\<rparr>"
    have "scan s ([q] @ body @ [q] @ t) = scan s1 (body @ CHR 0x22 # t)"
      using scan_open_dquote[OF n] by (simp add: q s1_def)
    also have "\<dots> = scan s2 t"
      unfolding s2_def using chunk_quoted.hyps(2,3) f q
      by (intro scan_dquote_body) (simp_all add: s1_def)
    finally have e: "scan s (([q] @ body @ [q]) @ t) = scan s2 t" by simp
    have n2: "normal_mode s2" using f by (simp add: s2_def s1_def normal_mode_def)
    have "absorbed b s (([q] @ body @ [q]) @ t)"
      using e
    proof (rule absorbed_shift)
      show "absorbed b s2 t" by (rule chunk_quoted.IH[OF n2])
    qed (simp_all add: s2_def s1_def q)
    then show ?thesis by simp
  qed
next
  case (chunk_line_comment body b t)
  note n = chunk_line_comment.prems
  have f: "\<not> inSingleQuote s" "\<not> inDoubleQuote s" "\<not> inLineComment s" "\<not> inBlockComment s"
    using n by (simp_all add: normal_mode_def)
  define s1 where "s1 = s\<lparr>current := current s @ ''--'', inLineComment := True\<rparr>"
  define s2 where "s2 = s1\<lparr>current := current s1 @ body @ [CHR 0x0A], inLineComment := False\<rparr>"
  have "scan s (''--'' @ body @ [CHR 0x0A] @ t) = scan s1 (body @ CHR 0x0A # t)"
    using scan_open_line_comment[OF n, of "body @ CHR 0x0A # t"] by (simp add: s1_def)
  also have "\<dots> = scan s2 t"
    unfolding s2_def using chunk_line_comment.hyps(1)
    by (intro scan_line_body) (simp_all add: s1_def)
  finally have e: "scan s ((''--'' @ body @ [CHR 0x0A]) @ t) = scan s2 t" by simp
  have n2: "normal_mode s2" using f by (simp add: s2_def s1_def normal_mode_def)
  have "absorbed b s ((''--'' @ body @ [CHR 0x0A]) @ t)"
    using e
  proof (rule absorbed_shift)
    show "absorbed b s2 t" by (rule chunk_line_comment.IH[OF n2])
  qed (simp_all add: s2_def s1_def)
  then show ?case by simp
next
  case (chunk_block_comment body b t)
  note n = chunk_block_comment.prems
  have f: "\<not> inSingleQuote s" "\<not> inDoubleQuote s" "\<not> inLineComment s" "\<not> inBlockComment s"
    using n by (simp_all add: normal_mode_def)
  define s1 where "s1 = s\<lparr>current := current s @ ''/*'', inBlockComment := True\<rparr>"
  define s2 where "s2 = s1\<lparr>current := current s1 @ body @ ''*/'', inBlockComment := False\<rparr>"
  have "scan s (''/*'' @ body @ ''*/'' @ t) = scan s1 (body @ ''*/'' @ t)"
    using scan_open_block[OF n, of "body @ ''*/'' @ t"] by (simp add: s1_def)
  also have "\<dots> = scan s2 t"
    unfolding s2_def using chunk_block_comment.hyps(1) f
    by (intro scan_block_body) (simp_all add: s1_def)
  finally have e: "scan s ((''/*'' @ body @ ''*/'') @ t) = scan s2 t" by simp
  have n2: "normal_mode s2" using f by (simp add: s2_def s1_def normal_mode_def)
  have "absorbed b s ((''/*'' @ body @ ''*/'') @ t)"
    using e
  proof (rule absorbed_shift)
    show "absorbed b s2 t" by (rule chunk_block_comment.IH[OF n2])
  qed (simp_all add: s2_def s1_def)
  then show ?case by simp
next
  case (chunk_open_quoted q body)
  note n = chunk_open_quoted.prems
  have f: "\<not> inSingleQuote s" "\<not> inDoubleQuote s" "\<not> inLineComment s" "\<not> inBlockComment s"
    using n by (simp_all add: normal_mode_def)
  show ?case
  proof (cases "q = CHR 0x27")
    case True
    define s1 where "s1 = s\<lparr>current := current s @ [CHR 0x27], inSingleQuote := True\<rparr>"
    have "scan s ([q] @ body) = scan s1 body"
      using scan_open_squote[OF n] by (simp add: True s1_def)
    also have "\<dots> = s1\<lparr>current := current s1 @ body\<rparr>"
      using chunk_open_quoted.hyps(2) f True by (intro scan_squote_open) (simp_all add: s1_def)
    finally show ?thesis by (simp add: absorbed_def s1_def True)
  next
    case False
    then have q: "q = CHR 0x22" using chunk_open_quoted.hyps(1) by (simp add: is_quote_def)
    define s1 where "s1 = s\<lparr>current := current s @ [CHR 0x22], inDoubleQuote := True\<rparr>"
    have "scan s ([q] @ body) = scan s1 body"
      using scan_open_dquote[OF n] by (simp add: q s1_def)
    also have "\<dots> = s1\<lparr>current := current s1 @ body\<rparr>"
      using chunk_open_quoted.hyps(2) f q by (intro scan_dquote_open) (simp_all add: s1_def)
    finally show ?thesis by (simp add: absorbed_def s1_def q)
  qed
next
  case (chunk_open_line_comment body)
  note n = chunk_open_line_comment.prems
  define s1 where "s1 = s\<lparr>current := current s @ ''--'', inLineComment := True\<rparr>"
  have "scan s (''--'' @ body) = scan s1 body"
    using scan_open_line_comment[OF n] by (simp add: s1_def)
  also have "\<dots> = s1\<lparr>current := current s1 @ body\<rparr>"
    using chunk_open_line_comment.hyps by (intro scan_in_line_comment) (simp_all add: s1_def)
  finally show ?case by (simp add: absorbed_def s1_def)
next
  case (chunk_open_block_comment body)
  note n = chunk_open_block_comment.prems
  have f: "\<not> inLineComment s" using n by (simp add: normal_mode_def)
  define s1 where "s1 = s\<lparr>current := current s @ ''/*'', inBlockComment := True\<rparr>"
  have "scan s (''/*'' @ body) = scan s1 body"
    using scan_open_block[OF n] by (simp add: s1_def)
  also have "\<dots> = s1\<lparr>current := current s1 @ body\<rparr>"
    using chunk_open_block_comment.hyps f by (intro scan_in_block_comment) (simp_all add: s1_def)
  finally show ?case by (simp add: absorbed_def s1_def)
qed

subsection \<open>A script is split at the semicolons between its chunks\<close>

lemma chunk_scan_init:
  assumes "chunk b g"
  shows "statements (scan scan_init g) = []" "current (scan scan_init g) = g"
    "b \<Longrightarrow> normal_mode (scan scan_init g)"
proof -
  have "normal_mode scan_init" by (simp add: normal_mode_def scan_init_def)
  from chunk_absorbed[OF assms this]
  show "statements (scan scan_init g) = []" "current (scan scan_init g) = g"
    "b \<Longrightarrow> normal_mode (scan scan_init g)"
    by (simp_all add: absorbed_def scan_init_def)
qed

lemma split_chunk:
  assumes "chunk b g"
  shows "splitSqlStatements g = (if trim g \<noteq> [] then [trim g] else [])"
  using chunk_scan_init(1,2)[OF assms] by (simp add: splitSqlStatements_def finish_def)

lemma split_closed_chunk_then:
  assumes "chunk True g"
  shows "splitSqlStatements (g @ CHR '';'' # r) = splitSqlStatements g @ splitSqlStatements r"
  using chunk_scan_init(3)[OF assms] by (intro split_at_top_level_semicolon) simp

lemma script_of_simps:
  "script_of [] = []" "script_of [g] = g"
  "script_of (g # x # xs) = g @ CHR '';'' # script_of (x # xs)"
  by (simp_all add: script_of_def)

lemma script_of_Cons:
  "xs \<noteq> [] \<Longrightarrow> script_of (g # xs) = g @ CHR '';'' # script_of xs"
  by (cases xs) (simp_all add: script_of_simps)

lemma split_script_of:
  assumes "list_all (chunk True) segs" "chunk b lst"
  shows "splitSqlStatements (script_of (segs @ [lst])) = filter (\<lambda>s. s \<noteq> []) (map trim (segs @ [lst]))"
  using assms(1)
proof (induction segs)
  case Nil
  then show ?case using split_chunk[OF assms(2)] by (simp add: script_of_simps)
next
  case (Cons g segs)
  have g: "chunk True g" and rest: "list_all (chunk True) segs" using Cons.prems by simp_all
  have "script_of ((g # segs) @ [lst]) = g @ CHR '';'' # script_of (segs @ [lst])"
    by (simp add: script_of_Cons)
  then show ?case
    using split_closed_chunk_then[OF g, of "script_of (segs @ [lst])"] split_chunk[OF g] Cons.IH[OF rest]
    by simp
qed

subsection \<open>Every script is made of chunks\<close>

lemma quoted_body_Cons: "c \<noteq> q \<Longrightarrow> quoted_body q (c # body) = quoted_body q body"
  by (cases body) simp_all

lemma quoted_find:
  "quoted_body q r \<or> (\<exists>body r'. r = body @ q # r' \<and> quoted_body q body \<and> \<not> starts_with q r')"
proof (induction q r rule: quoted_body.induct)
  case (1 q)
  then show ?case by simp
next
  case (2 q c)
  show ?case
  proof (cases "c = q")
    case True
    then have "[c] = [] @ q # [] \<and> quoted_body q [] \<and> \<not> starts_with q []" by simp
    then show ?thesis by blast
  next
    case False then show ?thesis by simp
  qed
next
  case (3 q c d r)
  show ?case
  proof (cases "c = q")
    case True
    show ?thesis
    proof (cases "d = q")
      case d: True
      from "3.IH"(1)[OF True] show ?thesis
      proof
        assume "quoted_body q r"
        then show ?thesis using True d by simp
      next
        assume "\<exists>body r'. r = body @ q # r' \<and> quoted_body q body \<and> \<not> starts_with q r'"
        then obtain body r' where b: "r = body @ q # r'" "quoted_body q body" "\<not> starts_with q r'"
          by blast
        have "c # d # r = (q # q # body) @ q # r' \<and> quoted_body q (q # q # body) \<and> \<not> starts_with q r'"
          using b True d by simp
        then show ?thesis by blast
      qed
    next
      case d: False
      have "c # d # r = [] @ q # (d # r) \<and> quoted_body q [] \<and> \<not> starts_with q (d # r)"
        using True d by simp
      then show ?thesis by blast
    qed
  next
    case False
    from "3.IH"(2)[OF False] show ?thesis
    proof
      assume "quoted_body q (d # r)"
      then show ?thesis using False by simp
    next
      assume "\<exists>body r'. d # r = body @ q # r' \<and> quoted_body q body \<and> \<not> starts_with q r'"
      then obtain body r' where b: "d # r = body @ q # r'" "quoted_body q body" "\<not> starts_with q r'"
        by blast
      have "c # d # r = (c # body) @ q # r' \<and> quoted_body q (c # body) \<and> \<not> starts_with q r'"
        using b False by (simp add: quoted_body_Cons)
      then show ?thesis by blast
    qed
  qed
qed

lemma line_find:
  "x \<notin> set r \<or> (\<exists>body r'. r = body @ x # r' \<and> x \<notin> set body)"
  by (metis split_list_first)

lemma has_pair_Cons:
  "has_pair a b (c # r) \<longleftrightarrow> (c = a \<and> starts_with b r) \<or> has_pair a b r"
  by (cases r) auto

lemma block_find:
  "\<not> has_pair a b r \<or> (\<exists>body r'. r = body @ a # b # r' \<and> \<not> has_pair a b body)"
proof (induction r)
  case Nil
  then show ?case by simp
next
  case (Cons c r)
  show ?case
  proof (cases "c = a \<and> starts_with b r")
    case True
    then obtain r' where "r = b # r'" by (cases r) auto
    then have "c # r = [] @ a # b # r' \<and> \<not> has_pair a b []" using True by simp
    then show ?thesis by blast
  next
    case False
    from Cons.IH show ?thesis
    proof
      assume "\<not> has_pair a b r"
      then show ?thesis using False by (simp add: has_pair_Cons)
    next
      assume "\<exists>body r'. r = body @ a # b # r' \<and> \<not> has_pair a b body"
      then obtain body r' where b: "r = body @ a # b # r'" "\<not> has_pair a b body" by blast
      have "\<not> (c = a \<and> starts_with b body)"
        using False b(1) by (cases body) auto
      then have "\<not> has_pair a b (c # body)" using b(2) by (simp add: has_pair_Cons)
      moreover have "c # r = (c # body) @ a # b # r'" using b(1) by simp
      ultimately show ?thesis by blast
    qed
  qed
qed

lemma cuttable_extend:
  assumes ext: "\<And>b u. chunk b u \<Longrightarrow> u = [] \<or> (r \<noteq> [] \<and> u \<noteq> [] \<and> hd u = hd r) \<Longrightarrow> chunk b (R @ u)"
    and "cuttable r"
  shows "cuttable (R @ r)"
  using assms(2) unfolding cuttable_def
proof
  assume "\<exists>b. chunk b r"
  then obtain b where b: "chunk b r" by blast
  have "chunk b (R @ r)" using b by (rule ext) (cases r, auto)
  then show "(\<exists>b. chunk b (R @ r)) \<or> (\<exists>g r'. chunk True g \<and> R @ r = g @ CHR '';'' # r')" by blast
next
  assume "\<exists>g r'. chunk True g \<and> r = g @ CHR '';'' # r'"
  then obtain g r' where g: "chunk True g" "r = g @ CHR '';'' # r'" by blast
  have "chunk True (R @ g)" using g(1) by (rule ext) (cases g, auto simp: g(2))
  moreover have "R @ r = (R @ g) @ CHR '';'' # r'" using g(2) by simp
  ultimately show "(\<exists>b. chunk b (R @ r)) \<or> (\<exists>g r'. chunk True g \<and> R @ r = g @ CHR '';'' # r')"
    by blast
qed

lemma starts_with_hd: "u \<noteq> [] \<Longrightarrow> r \<noteq> [] \<Longrightarrow> hd u = hd r \<Longrightarrow> starts_with q u = starts_with q r"
  by (cases u; cases r) auto

lemma starts_comment_hd:
  "u \<noteq> [] \<Longrightarrow> r \<noteq> [] \<Longrightarrow> hd u = hd r \<Longrightarrow> starts_comment (c # u) = starts_comment (c # r)"
  by (cases u; cases r) auto

lemma cuttable_all: "cuttable t"
proof (induction "length t" arbitrary: t rule: less_induct)
  case less
  show ?case
  proof (cases t)
    case Nil
    then show ?thesis using chunk.chunk_end by (auto simp: cuttable_def)
  next
    case (Cons c r)
    have ih: "cuttable u" if "length u < length t" for u using less that by blast
    show ?thesis
    proof (cases "starts_comment t")
      case True
      then obtain d r2 where r: "r = d # r2" using Cons by (cases r) auto
      show ?thesis
      proof (cases "c = CHR ''-''")
        case dash: True
        then have t: "t = ''--'' @ r2" using True Cons r by auto
        from line_find[of "CHR 0x0A" r2] show ?thesis
        proof
          assume "CHR 0x0A \<notin> set r2"
          then have "chunk False t" unfolding t by (rule chunk.chunk_open_line_comment)
          then show ?thesis by (auto simp: cuttable_def)
        next
          assume "\<exists>body r'. r2 = body @ CHR 0x0A # r' \<and> CHR 0x0A \<notin> set body"
          then obtain body r' where b: "r2 = body @ CHR 0x0A # r'" "CHR 0x0A \<notin> set body" by blast
          have "cuttable ((''--'' @ body @ [CHR 0x0A]) @ r')"
          proof (rule cuttable_extend)
            show "cuttable r'" by (rule ih) (simp add: t b(1))
            show "chunk b' ((''--'' @ body @ [CHR 0x0A]) @ u)" if "chunk b' u" for b' u
              using chunk.chunk_line_comment[OF b(2) that] by simp
          qed
          then show ?thesis by (simp add: t b(1))
        qed
      next
        case False
        then have t: "t = ''/*'' @ r2" using True Cons r by auto
        from block_find[of "CHR ''*''" "CHR ''/''" r2] show ?thesis
        proof
          assume "\<not> has_pair (CHR ''*'') (CHR ''/'') r2"
          then have "chunk False t" unfolding t by (rule chunk.chunk_open_block_comment)
          then show ?thesis by (auto simp: cuttable_def)
        next
          assume "\<exists>body r'. r2 = body @ CHR ''*'' # CHR ''/'' # r' \<and> \<not> has_pair (CHR ''*'') (CHR ''/'') body"
          then obtain body r' where b: "r2 = body @ CHR ''*'' # CHR ''/'' # r'"
            "\<not> has_pair (CHR ''*'') (CHR ''/'') body" by blast
          have "cuttable ((''/*'' @ body @ ''*/'') @ r')"
          proof (rule cuttable_extend)
            show "cuttable r'" by (rule ih) (simp add: t b(1))
            show "chunk b' ((''/*'' @ body @ ''*/'') @ u)" if "chunk b' u" for b' u
              using chunk.chunk_block_comment[OF b(2) that] by simp
          qed
          then show ?thesis by (simp add: t b(1))
        qed
      qed
    next
      case nc: False
      show ?thesis
      proof (cases "is_quote c")
        case True
        from quoted_find[of c r] show ?thesis
        proof
          assume "quoted_body c r"
          then have "chunk False ([c] @ r)" using True by (rule chunk.chunk_open_quoted[rotated])
          then show ?thesis by (auto simp: cuttable_def Cons)
        next
          assume "\<exists>body r'. r = body @ c # r' \<and> quoted_body c body \<and> \<not> starts_with c r'"
          then obtain body r' where b: "r = body @ c # r'" "quoted_body c body" "\<not> starts_with c r'"
            by blast
          have "cuttable (([c] @ body @ [c]) @ r')"
          proof (rule cuttable_extend)
            show "cuttable r'" by (rule ih) (simp add: Cons b(1))
            show "chunk b' (([c] @ body @ [c]) @ u)"
              if "chunk b' u" "u = [] \<or> (r' \<noteq> [] \<and> u \<noteq> [] \<and> hd u = hd r')" for b' u
            proof -
              have "\<not> starts_with c u" using that(2) b(3) starts_with_hd[of u r' c] by auto
              from chunk.chunk_quoted[OF True b(2) this that(1)] show ?thesis by simp
            qed
          qed
          then show ?thesis by (simp add: Cons b(1))
        qed
      next
        case nq: False
        show ?thesis
        proof (cases "c = CHR '';''")
          case True
          have "chunk True [] \<and> t = [] @ CHR '';'' # r" using True Cons chunk.chunk_end by simp
          then show ?thesis unfolding cuttable_def by blast
        next
          case False
          have "cuttable ([c] @ r)"
          proof (rule cuttable_extend)
            show "cuttable r" by (rule ih) (simp add: Cons)
            show "chunk b' ([c] @ u)"
              if "chunk b' u" "u = [] \<or> (r \<noteq> [] \<and> u \<noteq> [] \<and> hd u = hd r)" for b' u
            proof -
              have "\<not> starts_comment (c # u)"
                using that(2) nc starts_comment_hd[of u r c] by (auto simp: Cons)
              then show ?thesis
                using chunk.chunk_char[of c u b'] that(1) nq False by (simp add: is_quote_def)
            qed
          qed
          then show ?thesis by (simp add: Cons)
        qed
      qed
    qed
  qed
qed

lemma script_decomposition:
  "\<exists>segs lst b. list_all (chunk True) segs \<and> chunk b lst \<and> t = script_of (segs @ [lst])"
proof (induction "length t" arbitrary: t rule: less_induct)
  case less
  from cuttable_all[of t] show ?case unfolding cuttable_def
  proof
    assume "\<exists>b. chunk b t"
    then obtain b where "chunk b t" by blast
    then have "list_all (chunk True) [] \<and> chunk b t \<and> t = script_of ([] @ [t])"
      by (simp add: script_of_simps)
    then show ?thesis by blast
  next
    assume "\<exists>g r. chunk True g \<and> t = g @ CHR '';'' # r"
    then obtain g r where g: "chunk True g" "t = g @ CHR '';'' # r" by blast
    have "length r < length t" using g(2) by simp
    from less[OF this] obtain segs lst b where
      s: "list_all (chunk True) segs" "chunk b lst" "r = script_of (segs @ [lst])" by blast
    have "list_all (chunk True) (g # segs) \<and> chunk b lst \<and> t = script_of ((g # segs) @ [lst])"
      using g s by (simp add: script_of_Cons)
    then show ?thesis by blast
  qed
qed

subsection \<open>Joining chunks, and texts without semicolon\<close>

lemma chunk_append:
  "chunk b' pre \<Longrightarrow> b' \<Longrightarrow> chunk b (x # r) \<Longrightarrow> x \<noteq> CHR ''-'' \<Longrightarrow> x \<noteq> CHR ''*''
     \<Longrightarrow> \<not> is_quote x \<Longrightarrow> chunk b (pre @ x # r)"
proof (induction rule: chunk.induct)
  case chunk_end
  then show ?case by simp
next
  case (chunk_char c t b0)
  have "\<not> starts_comment (c # t @ x # r)"
    using chunk_char.hyps(4) chunk_char.prems(3,4) by (cases t) auto
  moreover have "chunk b (t @ x # r)" using chunk_char by blast
  ultimately have "chunk b (c # t @ x # r)"
    using chunk_char.hyps(1,2,3) by (intro chunk.chunk_char)
  then show ?case by simp
next
  case (chunk_quoted q body t b0)
  have "\<not> starts_with q (t @ x # r)"
    using chunk_quoted.hyps(1,3) chunk_quoted.prems(5) by (cases t) auto
  moreover have "chunk b (t @ x # r)" using chunk_quoted by blast
  ultimately have "chunk b ([q] @ body @ [q] @ t @ x # r)"
    using chunk_quoted.hyps(1,2) by (intro chunk.chunk_quoted)
  then show ?case by simp
next
  case (chunk_line_comment body b0 t)
  have "chunk b (t @ x # r)" using chunk_line_comment by blast
  then have "chunk b (''--'' @ body @ [CHR 0x0A] @ t @ x # r)"
    using chunk_line_comment.hyps(1) by (intro chunk.chunk_line_comment)
  then show ?case by simp
next
  case (chunk_block_comment body b0 t)
  have "chunk b (t @ x # r)" using chunk_block_comment by blast
  then have "chunk b (''/*'' @ body @ ''*/'' @ t @ x # r)"
    using chunk_block_comment.hyps(1) by (intro chunk.chunk_block_comment)
  then show ?case by simp
qed simp_all

lemma chunk_plain:
  assumes "\<forall>c\<in>set p. c \<notin> set [CHR 0x27, CHR 0x22, CHR '';'', CHR ''-'', CHR ''/'']" "chunk b t"
  shows "chunk b (p @ t)"
  using assms(1)
proof (induction p)
  case Nil
  then show ?case using assms(2) by simp
next
  case (Cons c p)
  have "\<not> starts_comment (c # p @ t)" using Cons.prems by (cases "p @ t") auto
  then have "chunk b (c # p @ t)"
    using Cons by (intro chunk.chunk_char) auto
  then show ?case by simp
qed

lemma semicolon_in_script_of: "segs \<noteq> [] \<Longrightarrow> CHR '';'' \<in> set (script_of (segs @ [lst]))"
  by (cases segs) (simp_all add: script_of_Cons)

lemma split_no_semicolon:
  assumes "CHR '';'' \<notin> set t"
  shows "splitSqlStatements t = (if trim t \<noteq> [] then [trim t] else [])"
proof -
  obtain segs lst b where
    d: "list_all (chunk True) segs" "chunk b lst" "t = script_of (segs @ [lst])"
    using script_decomposition[of t] by blast
  have "segs = []" using semicolon_in_script_of[of segs lst] assms d(3) by auto
  then have "t = lst" using d(3) by (simp add: script_of_simps)
  then show ?thesis using split_chunk[OF d(2)] by simp
qed

lemma split_script_of_closed:
  assumes "list_all (chunk True) segs"
  shows "splitSqlStatements (script_of segs) = filter (\<lambda>s. s \<noteq> []) (map trim segs)"
proof (cases segs rule: rev_cases)
  case Nil
  then show ?thesis by (simp add: script_of_simps split_eval)
next
  case (snoc ys y)
  then show ?thesis using assms split_script_of[of ys True y] by simp
qed

lemma split_script_of_tail:
  assumes "list_all (chunk True) segs" "chunk b lst" "trim lst \<noteq> []"
  shows "splitSqlStatements (script_of (segs @ [lst])) = splitSqlStatements (script_of segs) @ [trim lst]"
  using split_script_of[OF assms(1,2)] split_script_of_closed[OF assms(1)] assms(3) by simp

lemma split_open_block_comment:
  assumes "list_all (chunk True) segs" "chunk True pre" "\<not> has_pair (CHR ''*'') (CHR ''/'') body"
  shows "splitSqlStatements (script_of (segs @ [pre @ ''/*'' @ body]))
           = filter (\<lambda>s. s \<noteq> []) (map trim segs) @ [trim (pre @ ''/*'' @ body)]"
proof -
  have "chunk False (''/*'' @ body)" using assms(3) by (rule chunk.chunk_open_block_comment)
  then have "chunk False (pre @ CHR ''/'' # CHR ''*'' # body)"
    using assms(2) by (intro chunk_append[of True]) (simp_all add: is_quote_def)
  then have c: "chunk False (pre @ ''/*'' @ body)" by simp
  have "\<not> is_space (CHR ''/'')" by (simp add: is_space_def)
  then have "trim (pre @ ''/*'' @ body) \<noteq> []" by (intro trim_not_Nil[of "CHR ''/''"]) simp_all
  then show ?thesis using split_script_of[OF assms(1) c] by simp
qed

lemma split_quoted_region:
  assumes "is_quote q" "quoted_body q body" "\<not> starts_with q t" "chunk b t"
  shows "splitSqlStatements ([q] @ body @ [q] @ t) = [trim ([q] @ body @ [q] @ t)]"
proof -
  have "\<not> is_space q" using assms(1) by (auto simp: is_space_def is_quote_def)
  then have "trim ([q] @ body @ [q] @ t) \<noteq> []" by (intro trim_not_Nil[of q]) simp_all
  then show ?thesis using split_chunk[OF chunk.chunk_quoted[OF assms]] by simp
qed

lemma split_line_comment:
  assumes "CHR 0x0A \<notin> set body" "chunk b t"
  shows "splitSqlStatements (''--'' @ body @ [CHR 0x0A] @ t) = [trim (''--'' @ body @ [CHR 0x0A] @ t)]"
proof -
  have "\<not> is_space (CHR ''-'')" by (simp add: is_space_def)
  then have "trim (''--'' @ body @ [CHR 0x0A] @ t) \<noteq> []" by (intro trim_not_Nil[of "CHR ''-''"]) simp_all
  then show ?thesis using split_chunk[OF chunk.chunk_line_comment[OF assms]] by simp
qed

lemma split_block_comment:
  assumes "\<not> has_pair (CHR ''*'') (CHR ''/'') body" "chunk b t"
  shows "splitSqlStatements (''/*'' @ body @ ''*/'' @ t) = [trim (''/*'' @ body @ ''*/'' @ t)]"
proof -
  have "\<not> is_space (CHR ''/'')" by (simp add: is_space_def)
  then have "trim (''/*'' @ body @ ''*/'' @ t) \<noteq> []" by (intro trim_not_Nil[of "CHR ''/''"]) simp_all
  then show ?thesis using split_chunk[OF chunk.chunk_block_comment[OF assms]] by simp
qed

subsection \<open>Chunks of the example scripts\<close>

lemma chunk_select_1: "chunk True '' SELECT 1''"
  using chunk_plain[of "'' SELECT 1''" True "[]"] chunk.chunk_end by simp

lemma chunk_example_quoted: "chunk True (''SELECT '' @ [CHR 0x27] @ ''a;b'' @ [CHR 0x27] @ '' x'')"
proof -
  have "chunk True '' x''" using chunk_plain[of "'' x''" True "[]"] chunk.chunk_end by simp
  then have "chunk True ([CHR 0x27] @ ''a;b'' @ [CHR 0x27] @ '' x'')"
    using chunk.chunk_quoted[of "CHR 0x27" "''a;b''" "'' x''" True] by (simp add: is_quote_def)
  then show ?thesis
    using chunk_plain[of "''SELECT ''" True "[CHR 0x27] @ ''a;b'' @ [CHR 0x27] @ '' x''"] by simp
qed

lemma chunk_example_regions:
  "chunk True ('' SELECT '' @ [CHR 0x22] @ ''c;d'' @ [CHR 0x22] @ '' '' @ ''--'' @ '' e;f'' @ [CHR 0x0A]
       @ ''/*'' @ '' g;h '' @ ''*/'' @ [])"
proof -
  have "chunk True (''/*'' @ '' g;h '' @ ''*/'' @ [])"
    using chunk.chunk_block_comment[of "'' g;h ''" True "[]"] chunk.chunk_end by simp
  then have "chunk True (''--'' @ '' e;f'' @ [CHR 0x0A] @ ''/*'' @ '' g;h '' @ ''*/'' @ [])"
    using chunk.chunk_line_comment[of "'' e;f''" True "''/*'' @ '' g;h '' @ ''*/'' @ []"] by simp
  then have "chunk True ('' '' @ ''--'' @ '' e;f'' @ [CHR 0x0A] @ ''/*'' @ '' g;h '' @ ''*/'' @ [])"
    using chunk_plain[of "'' ''" True "''--'' @ '' e;f'' @ [CHR 0x0A] @ ''/*'' @ '' g;h '' @ ''*/'' @ []"]
    by simp
  then have "chunk True ([CHR 0x22] @ ''c;d'' @ [CHR 0x22] @ '' '' @ ''--'' @ '' e;f'' @ [CHR 0x0A]
       @ ''/*'' @ '' g;h '' @ ''*/'' @ [])"
    using chunk.chunk_quoted[of "CHR 0x22" "''c;d''"
        "'' '' @ ''--'' @ '' e;f'' @ [CHR 0x0A] @ ''/*'' @ '' g;h '' @ ''*/'' @ []" True]
    by (simp add: is_quote_def)
  then show ?thesis
    using chunk_plain[of "'' SELECT ''" True "[CHR 0x22] @ ''c;d'' @ [CHR 0x22] @ '' '' @ ''--''
       @ '' e;f'' @ [CHR 0x0A] @ ''/*'' @ '' g;h '' @ ''*/'' @ []"]
    by simp
qed

text \<open>
  Claim C3, as stated, fails: a function-derived entry has the sort text \<open>3:\<close> and an
  ordinary keyword entry \<open>4:\<close>, so the entry of the function \<open>ABS\<close> sorts before the entry
  of the keyword \<open>AND\<close>, not after it.
\<close>

theorem sort_priority_C3_counterexample:
  "map (\<lambda>kv. (fst kv, sortText (snd kv)))
     (addFunctionCompletions (jsonParse demo_sys) demo_function_rows
        (addKeywordCompletions demo_keyword_rows []))
     = [(''AND'', ''4:AND''), (''SELECT'', ''2:SELECT''), (''NOW'', ''4:NOW''), (''ABS'', ''3:ABS'')]
   \<and> \<not> (''4:AND'' :: string) < ''3:ABS'' \<and> (''3:ABS'' :: string) < ''4:AND''"
  by code_simp

text \<open>
  Claim C3, amended. In the index built from keyword rows and function rows, the sort
  text of a keyword entry is \<open>2:\<close> and the label when the label is in the prioritized set
  and \<open>4:\<close> and the label otherwise, and the sort text of the entry of a function whose
  label is not a keyword label is \<open>3:\<close> and the label. So, under the lexicographic order
  of the sort texts, every prioritized keyword entry sorts before every ordinary keyword
  entry, whatever the function rows are; every prioritized keyword entry sorts before
  every function-derived entry; and every function-derived entry sorts before every
  ordinary keyword entry.
\<close>

theorem sort_priority_C3:
  "(p1 \<in> keyword_labels kitems1 \<and> p1 \<in> set PRIORITIZED_SQL_WORDS
      \<and> k1 \<in> keyword_labels kitems1 \<and> k1 \<notin> set PRIORITIZED_SQL_WORDS \<longrightarrow>
      (\<exists>ep ek.
          map_of (addFunctionCompletions parse1 fitems1 (addKeywordCompletions kitems1 [])) p1 = Some ep
        \<and> map_of (addFunctionCompletions parse1 fitems1 (addKeywordCompletions kitems1 [])) k1 = Some ek
        \<and> sortText ep = ''2:'' @ p1 \<and> sortText ek = ''4:'' @ k1 \<and> sortText ep < sortText ek))
   \<and> (p2 \<in> keyword_labels kitems2 \<and> p2 \<in> set PRIORITIZED_SQL_WORDS
      \<and> f2 \<in> function_labels fitems2 \<and> f2 \<notin> keyword_labels kitems2 \<longrightarrow>
      (\<exists>ep ef.
          map_of (addFunctionCompletions parse2 fitems2 (addKeywordCompletions kitems2 [])) p2 = Some ep
        \<and> map_of (addFunctionCompletions parse2 fitems2 (addKeywordCompletions kitems2 [])) f2 = Some ef
        \<and> sortText ep = ''2:'' @ p2 \<and> sortText ef = ''3:'' @ f2 \<and> sortText ep < sortText ef))
   \<and> (f3 \<in> function_labels fitems3 \<and> f3 \<notin> keyword_labels kitems3
      \<and> k3 \<in> keyword_labels kitems3 \<and> k3 \<notin> set PRIORITIZED_SQL_WORDS \<longrightarrow>
      (\<exists>ef ek.
          map_of (addFunctionCompletions parse3 fitems3 (addKeywordCompletions kitems3 [])) f3 = Some ef
        \<and> map_of (addFunctionCompletions parse3 fitems3 (addKeywordCompletions kitems3 [])) k3 = Some ek
        \<and> sortText ef = ''3:'' @ f3 \<and> sortText ek = ''4:'' @ k3 \<and> sortText ef < sortText ek))"
proof (intro conjI impI)
  assume h: "p1 \<in> keyword_labels kitems1 \<and> p1 \<in> set PRIORITIZED_SQL_WORDS
      \<and> k1 \<in> keyword_labels kitems1 \<and> k1 \<notin> set PRIORITIZED_SQL_WORDS"
  from index_keyword_sortText[of p1 kitems1 parse1 fitems1] h obtain ep where
    ep: "map_of (addFunctionCompletions parse1 fitems1 (addKeywordCompletions kitems1 [])) p1 = Some ep"
      "sortText ep = ''2:'' @ p1" by auto
  from index_keyword_sortText[of k1 kitems1 parse1 fitems1] h obtain ek where
    ek: "map_of (addFunctionCompletions parse1 fitems1 (addKeywordCompletions kitems1 [])) k1 = Some ek"
      "sortText ek = ''4:'' @ k1" by auto
  have "sortText ep < sortText ek" unfolding ep(2) ek(2) by (rule sort_prefix_order)
  with ep ek show "\<exists>ep ek.
          map_of (addFunctionCompletions parse1 fitems1 (addKeywordCompletions kitems1 [])) p1 = Some ep
        \<and> map_of (addFunctionCompletions parse1 fitems1 (addKeywordCompletions kitems1 [])) k1 = Some ek
        \<and> sortText ep = ''2:'' @ p1 \<and> sortText ek = ''4:'' @ k1 \<and> sortText ep < sortText ek"
    by blast
next
  assume h: "p2 \<in> keyword_labels kitems2 \<and> p2 \<in> set PRIORITIZED_SQL_WORDS
      \<and> f2 \<in> function_labels fitems2 \<and> f2 \<notin> keyword_labels kitems2"
  from index_keyword_sortText[of p2 kitems2 parse2 fitems2] h obtain ep where
    ep: "map_of (addFunctionCompletions parse2 fitems2 (addKeywordCompletions kitems2 [])) p2 = Some ep"
      "sortText ep = ''2:'' @ p2" by auto
  from index_function_sortText[of f2 fitems2 kitems2 parse2] h obtain ef where
    ef: "map_of (addFunctionCompletions parse2 fitems2 (addKeywordCompletions kitems2 [])) f2 = Some ef"
      "sortText ef = ''3:'' @ f2" by auto
  have "sortText ep < sortText ef" unfolding ep(2) ef(2) by (rule sort_prefix_order)
  with ep ef show "\<exists>ep ef.
          map_of (addFunctionCompletions parse2 fitems2 (addKeywordCompletions kitems2 [])) p2 = Some ep
        \<and> map_of (addFunctionCompletions parse2 fitems2 (addKeywordCompletions kitems2 [])) f2 = Some ef
        \<and> sortText ep = ''2:'' @ p2 \<and> sortText ef = ''3:'' @ f2 \<and> sortText ep < sortText ef"
    by blast
next
  assume h: "f3 \<in> function_labels fitems3 \<and> f3 \<notin> keyword_labels kitems3
      \<and> k3 \<in> keyword_labels kitems3 \<and> k3 \<notin> set PRIORITIZED_SQL_WORDS"
  from index_function_sortText[of f3 fitems3 kitems3 parse3] h obtain ef where
    ef: "map_of (addFunctionCompletions parse3 fitems3 (addKeywordCompletions kitems3 [])) f3 = Some ef"
      "sortText ef = ''3:'' @ f3" by auto
  from index_keyword_sortText[of k3 kitems3 parse3 fitems3] h obtain ek where
    ek: "map_of (addFunctionCompletions parse3 fitems3 (addKeywordCompletions kitems3 [])) k3 = Some ek"
      "sortText ek = ''4:'' @ k3" by auto
  have "sortText ef < sortText ek" unfolding ef(2) ek(2) by (rule sort_prefix_order)
  with ef ek show "\<exists>ef ek.
          map_of (addFunctionCompletions parse3 fitems3 (addKeywordCompletions kitems3 [])) f3 = Some ef
        \<and> map_of (addFunctionCompletions parse3 fitems3 (addKeywordCompletions kitems3 [])) k3 = Some ek
        \<and> sortText ef = ''3:'' @ f3 \<and> sortText ek = ''4:'' @ k3 \<and> sortText ef < sortText ek"
    by blast
qed

theorem sort_priority_C3_witness:
  "(\<exists>ep ek.
       map_of (addFunctionCompletions (jsonParse demo_sys) []
                 (addKeywordCompletions demo_keyword_rows [])) ''SELECT'' = Some ep
     \<and> map_of (addFunctionCompletions (jsonParse demo_sys) []
                 (addKeywordCompletions demo_keyword_rows [])) ''AND'' = Some ek
     \<and> sortText ep = ''2:SELECT'' \<and> sortText ek = ''4:AND'' \<and> sortText ep < sortText ek)
   \<and> (\<exists>ep ef.
       map_of (addFunctionCompletions (jsonParse demo_sys) demo_function_rows
                 (addKeywordCompletions demo_keyword_rows [])) ''SELECT'' = Some ep
     \<and> map_of (addFunctionCompletions (jsonParse demo_sys) demo_function_rows
                 (addKeywordCompletions demo_keyword_rows [])) ''ABS'' = Some ef
     \<and> sortText ep = ''2:SELECT'' \<and> sortText ef = ''3:ABS'' \<and> sortText ep < sortText ef)
   \<and> (\<exists>ef ek.
       map_of (addFunctionCompletions (jsonParse demo_sys) demo_function_rows
                 (addKeywordCompletions demo_keyword_rows [])) ''ABS'' = Some ef
     \<and> map_of (addFunctionCompletions (jsonParse demo_sys) demo_function_rows
                 (addKeywordCompletions demo_keyword_rows [])) ''AND'' = Some ek
     \<and> sortText ef = ''3:ABS'' \<and> sortText ek = ''4:AND'' \<and> sortText ef < sortText ek)"
proof -
  have h: "''SELECT'' \<in> keyword_labels demo_keyword_rows" "''SELECT'' \<in> set PRIORITIZED_SQL_WORDS"
    "''AND'' \<in> keyword_labels demo_keyword_rows" "''AND'' \<notin> set PRIORITIZED_SQL_WORDS"
    "''ABS'' \<in> function_labels demo_function_rows" "''ABS'' \<notin> keyword_labels demo_keyword_rows"
    by (simp_all add: keyword_labels_eval function_labels_eval demo_keyword_labels
          demo_function_labels PRIORITIZED_SQL_WORDS_def)
  from sort_priority_C3[where ?p1.0 = "''SELECT''" and ?k1.0 = "''AND''"
      and ?kitems1.0 = demo_keyword_rows and ?fitems1.0 = "[]" and ?parse1.0 = "jsonParse demo_sys"
      and ?p2.0 = "''SELECT''" and ?f2.0 = "''ABS''"
      and ?kitems2.0 = demo_keyword_rows and ?fitems2.0 = demo_function_rows
      and ?parse2.0 = "jsonParse demo_sys"
      and ?f3.0 = "''ABS''" and ?k3.0 = "''AND''"
      and ?kitems3.0 = demo_keyword_rows and ?fitems3.0 = demo_function_rows
      and ?parse3.0 = "jsonParse demo_sys"]
  show ?thesis using h by simp
qed




text \<open>
  Claim C9. When a label of the function rows is the label of a keyword-derived entry,
  adding the functions leaves the label, detail, filter text and sort text of that entry
  as the keyword row set them; its documentation becomes the keyword documentation, a
  blank line and the documentation block of the function; and the index still has
  exactly one entry for the label.
\<close>

theorem keyword_collision_C9:
  assumes "l \<in> keyword_labels kitems"
    and "map_of (collectFunctionMeta parse fitems) l = Some m"
    and "distinct (map fst c0)"
  shows "\<exists>cat e'.
           map_of (addKeywordCompletions kitems c0) l = Some (keyword_entry l cat)
         \<and> map_of (addFunctionCompletions parse fitems (addKeywordCompletions kitems c0)) l = Some e'
         \<and> e' = (keyword_entry l cat)\<lparr>documentation :=
                    Some \<lparr>doc_value = keyword_doc l cat @ ''\<newline>\<newline>'' @ function_doc l m,
                          doc_kind = ''markdown''\<rparr>\<rparr>
         \<and> label e' = l \<and> detail e' = l \<and> filterText e' = l
         \<and> sortText e' = sortText (keyword_entry l cat)
         \<and> length (filter (\<lambda>kv. fst kv = l)
              (addFunctionCompletions parse fitems (addKeywordCompletions kitems c0))) = 1
         \<and> length (filter (\<lambda>kv. fst kv = l) (addKeywordCompletions kitems c0)) = 1"
proof -
  define ck where "ck = addKeywordCompletions kitems c0"
  define ms where "ms = collectFunctionMeta parse fitems"
  from addKeywordCompletions_entry[OF assms(1), of c0] obtain cat where
    cat: "map_of ck l = Some (keyword_entry l cat)" by (auto simp: ck_def)
  have dk: "distinct (map fst ck)"
    using assms(3) by (simp add: ck_def addKeywordCompletions_distinct)
  have dm: "distinct (map fst ms)" by (simp add: ms_def collectFunctionMeta_distinct)
  have m: "map_of ms l = Some m" using assms(2) by (simp add: ms_def)
  define e' where "e' = (keyword_entry l cat)\<lparr>documentation :=
                    Some \<lparr>doc_value = keyword_doc l cat @ ''\<newline>\<newline>'' @ function_doc l m,
                          doc_kind = ''markdown''\<rparr>\<rparr>"
  have r: "map_of (fold apply_meta ms ck) l = Some e'"
    using fold_apply_meta_existing[OF dm m cat] by (simp add: merged_doc_keyword_entry e'_def)
  have df: "distinct (map fst (fold apply_meta ms ck))"
    using dk by (rule fold_apply_meta_distinct)
  have f: "label e' = l" "detail e' = l" "filterText e' = l"
    "sortText e' = sortText (keyword_entry l cat)"
    by (simp_all add: e'_def keyword_entry_def)
  have "length (filter (\<lambda>kv. fst kv = l) (fold apply_meta ms ck)) = 1"
    using df r by (rule count_key)
  moreover have "length (filter (\<lambda>kv. fst kv = l) ck) = 1"
    using dk cat by (rule count_key)
  ultimately show ?thesis
    using cat r f unfolding addFunctionCompletions_def ck_def[symmetric] ms_def[symmetric] e'_def
    by blast
qed

theorem keyword_collision_C9_witness:
  "\<exists>cat e'.
       map_of (addKeywordCompletions demo_keyword_rows []) ''NOW'' = Some (keyword_entry ''NOW'' cat)
     \<and> map_of (addFunctionCompletions (jsonParse demo_sys) demo_function_rows
                 (addKeywordCompletions demo_keyword_rows [])) ''NOW'' = Some e'
     \<and> label e' = ''NOW'' \<and> detail e' = ''NOW'' \<and> filterText e' = ''NOW''
     \<and> sortText e' = ''4:NOW''
     \<and> length (filter (\<lambda>kv. fst kv = ''NOW'')
          (addFunctionCompletions (jsonParse demo_sys) demo_function_rows
             (addKeywordCompletions demo_keyword_rows []))) = 1"
proof -
  define m where "m = \<lparr>categories = [''SCALAR''], returnTypes = [], signatures = [''NOW(x)''],
     tags = [], description = []\<rparr>"
  have h1: "''NOW'' \<in> keyword_labels demo_keyword_rows"
    by (simp add: keyword_labels_eval demo_keyword_labels)
  have h2: "map_of (collectFunctionMeta (jsonParse demo_sys) demo_function_rows) ''NOW'' = Some m"
    unfolding m_def by code_simp
  have h3: "distinct (map fst ([] :: (string \<times> completion) list))" by simp
  have s: "\<And>cat. sortText (keyword_entry ''NOW'' cat) = ''4:NOW''"
    by (simp add: keyword_entry_def PRIORITIZED_SQL_WORDS_def)
  from keyword_collision_C9[OF h1 h2 h3] show ?thesis unfolding s by blast
qed

text \<open>
  Claim C1. When the script splits into the statements \<open>pre\<close>, \<open>q\<close>, \<open>post\<close>, every statement
  of \<open>pre\<close> runs without an error result and running \<open>q\<close> fails (the subprocess fails or its
  output does not parse), \<open>query\<close> returns one result for each statement of \<open>pre\<close>, in
  order, followed by one error result for \<open>q\<close>: \<open>length pre + 1\<close> results. The driver is
  left as it was when \<open>q\<close> failed, whatever \<open>post\<close> holds: no statement of \<open>post\<close> is run.
\<close>

theorem query_fail_fast_C1:
  assumes "filter (\<lambda>s. s \<noteq> []) (splitSqlStatements script) = pre @ q # post"
    and "query_loop sys cr req pre st [] = (rs, st1)"
    and "list_all (\<lambda>r. \<not> error r) rs"
    and "runSingleQuery sys cr q st1 = (Inl e, st2)"
  shows "\<exists>r st3. query sys cr req script st = (rs @ [r], st3)
           \<and> length (rs @ [r]) = length pre + 1
           \<and> map query_text (rs @ [r]) = pre @ [q]
           \<and> error r \<and> results r = [] \<and> messages r = [Message (error_text e)]
           \<and> trace st3 = trace st2 \<and> conn st3 = conn st2"
proof -
  obtain r st3 where er: "error_result sys cr req q e st2 = (r, st3)"
    by (cases "error_result sys cr req q e st2")
  have rs: "run_statement sys cr req q st1 = (r, st3)"
    using run_statement_failure[OF assms(4)] er by simp
  note p = error_result_props[OF er]
  have "query_loop sys cr req (q # post) st1 [] = ([r], st3)"
    using rs p(1) by simp
  with query_loop_ok_append[OF assms(2,3), of "q # post"]
  have "query sys cr req script st = (rs @ [r], st3)" and "map query_text rs = pre"
    by (simp_all add: query_def assms(1))
  then show ?thesis using p by auto
qed

theorem query_fail_fast_C1_witness:
  "map error (fst (query demo_sys demo_credentials (Some ''req'')
         ''CREATE TABLE t (x INT); SELECT bad; SELECT 1'' open_driver)) = [False, True]
   \<and> trace (snd (query demo_sys demo_credentials (Some ''req'')
         ''CREATE TABLE t (x INT); SELECT bad; SELECT 1'' open_driver))
       = [EnvRead ''DUCKDB_CLI_PATH'', Spawn ''duckdb'' [''--version''],
          Spawn ''duckdb'' ['':memory:'', ''-json'', ''-c'', ''CREATE TABLE t (x INT)''],
          Spawn ''duckdb'' ['':memory:'', ''-json'', ''-c'', ''SELECT bad'']]"
proof -
  define r1 where "r1 = \<lparr>requestId = Some ''req'', resultId = ''id-1'', connId = ''conn-1'',
      cols = [], messages = [Message ''Statement executed successfully.''],
      query_text = ''CREATE TABLE t (x INT)'', results = [], error = False, rawError = None\<rparr>"
  define c where "c = \<lparr>databasePath = '':memory:'', executablePath = ''duckdb'', readOnly = False\<rparr>"
  define st1 where "st1 = \<lparr>world = 2::nat, conn = Some c,
     trace = [EnvRead ''DUCKDB_CLI_PATH'', Spawn ''duckdb'' [''--version''],
        Spawn ''duckdb'' ['':memory:'', ''-json'', ''-c'', ''CREATE TABLE t (x INT)'']]\<rparr>"
  define st2 where "st2 = \<lparr>world = 3::nat, conn = Some c,
     trace = [EnvRead ''DUCKDB_CLI_PATH'', Spawn ''duckdb'' [''--version''],
        Spawn ''duckdb'' ['':memory:'', ''-json'', ''-c'', ''CREATE TABLE t (x INT)''],
        Spawn ''duckdb'' ['':memory:'', ''-json'', ''-c'', ''SELECT bad'']]\<rparr>"
  have h1: "filter (\<lambda>s. s \<noteq> []) (splitSqlStatements ''CREATE TABLE t (x INT); SELECT bad; SELECT 1'')
      = [''CREATE TABLE t (x INT)''] @ ''SELECT bad'' # [''SELECT 1'']"
    by (simp add: split_eval)
  have h2: "query_loop demo_sys demo_credentials (Some ''req'') [''CREATE TABLE t (x INT)''] open_driver []
      = ([r1], st1)"
    by (simp add: demo_eval r1_def st1_def c_def trim_def is_space_def)
  have h3: "list_all (\<lambda>r. \<not> error r) [r1]" by (simp add: r1_def)
  have h4: "runSingleQuery demo_sys demo_credentials ''SELECT bad'' st1
      = (Inl (JSError ''Error'' ''Parser Error: syntax error''), st2)"
    by (simp add: demo_eval st1_def st2_def c_def trim_def is_space_def)
  from query_fail_fast_C1[OF h1 h2 h3 h4]
  show ?thesis by (auto simp: r1_def st2_def)
qed

text \<open>
  Claim C10. A script made only of whitespace and semicolons splits into no statement, and
  \<open>query\<close> on it returns the empty list of results and leaves the driver as it was: its
  world, its connection and the trace of its calls are unchanged, so the CLI is not run.
\<close>

theorem query_blank_script_C10:
  assumes "\<forall>c\<in>set script. is_space c \<or> c = CHR '';''"
  shows "splitSqlStatements script = [] \<and> query sys cr req script st = ([], st)"
  using split_blank[OF assms] by (simp add: query_def)

theorem query_blank_script_C10_witness:
  "splitSqlStatements '' ;; ; '' = []
   \<and> query demo_sys demo_credentials None '' ;; ; '' fresh_driver = ([], fresh_driver)
   \<and> splitSqlStatements [] = []
   \<and> query demo_sys demo_credentials None [] fresh_driver = ([], fresh_driver)"
  using query_blank_script_C10[of "'' ;; ; ''" demo_sys demo_credentials None fresh_driver]
    query_blank_script_C10[of "[]" demo_sys demo_credentials None fresh_driver]
  by (simp add: is_space_def)

text \<open>
  Claim C5. \<open>isResultSetQuery\<close> holds exactly when the leading keyword of the trimmed
  statement, in lower case, is one of select, with, pragma, show, describe, call, explain
  and summarize. A statement that runs and returns no row gives a result without error,
  with no row and no column; it has no message when the statement is result-set-shaped
  and the one message \<open>Statement executed successfully.\<close> otherwise. A result flagged as
  an error has no row and exactly one message, the text of the error it carries.
\<close>

theorem result_classification_C5:
  "(isResultSetQuery q0 \<longleftrightarrow> leading_keyword q0 \<in> set result_set_keywords)
   \<and> (runSingleQuery sys cr q st = (Inr [], st1) \<longrightarrow>
        (\<exists>r st2. run_statement sys cr req q st = (r, st2) \<and> \<not> error r \<and> results r = []
           \<and> cols r = []
           \<and> messages r = (if leading_keyword q \<in> set result_set_keywords then []
                            else [Message ''Statement executed successfully.''])))
   \<and> (run_statement sys' cr' req' q' st' = (r', st2') \<and> error r' \<longrightarrow>
        results r' = [] \<and> (\<exists>e. rawError r' = Some e \<and> messages r' = [Message (error_text e)]))"
  using isResultSetQuery_leading_keyword[of q0] isResultSetQuery_leading_keyword[of q]
    run_statement_zero_rows[of sys cr q st st1 req]
    run_statement_error[of sys' cr' req' q' st' r' st2']
  by simp

theorem result_classification_C5_witness:
  "isResultSetQuery ''  Select * from t'' \<and> leading_keyword ''  Select * from t'' = ''select''
   \<and> messages (fst (run_statement demo_sys demo_credentials None ''SELECT 1'' open_driver)) = []
   \<and> results (fst (run_statement demo_sys demo_credentials None ''SELECT 1'' open_driver)) = []
   \<and> messages (fst (run_statement demo_sys demo_credentials None ''CREATE TABLE t (x INT)'' open_driver))
       = [Message ''Statement executed successfully.'']
   \<and> error (fst (run_statement demo_sys demo_credentials None ''SELECT bad'' open_driver))
   \<and> results (fst (run_statement demo_sys demo_credentials None ''SELECT bad'' open_driver)) = []
   \<and> messages (fst (run_statement demo_sys demo_credentials None ''SELECT bad'' open_driver))
       = [Message ''Parser Error: syntax error'']"
proof -
  define c where "c = \<lparr>databasePath = '':memory:'', executablePath = ''duckdb'', readOnly = False\<rparr>"
  define st1 where "st1 = (\<lambda>q. \<lparr>world = 1::nat, conn = Some c,
     trace = [EnvRead ''DUCKDB_CLI_PATH'', Spawn ''duckdb'' [''--version''],
        Spawn ''duckdb'' ['':memory:'', ''-json'', ''-c'', q]]\<rparr>)"
  define r' where "r' = \<lparr>requestId = None, resultId = ''id-1'', connId = ''conn-1'',
      cols = [], messages = [Message ''Parser Error: syntax error''],
      query_text = ''SELECT bad'', results = [], error = True,
      rawError = Some (JSError ''Error'' ''Parser Error: syntax error'')\<rparr>"
  define st2' where "st2' = (st1 ''SELECT bad'')\<lparr>world := 2\<rparr>"
  have k: "leading_keyword ''  Select * from t'' = ''select''"
       "leading_keyword ''SELECT 1'' = ''select''"
       "leading_keyword ''CREATE TABLE t (x INT)'' = ''create''"
    by (simp_all add: leading_keyword_def toLowerCase_def trim_def is_space_def is_word_char_def
        lower_char_def is_lower_def is_upper_def is_digit_def)
  have h1: "runSingleQuery demo_sys demo_credentials ''SELECT 1'' open_driver = (Inr [], st1 ''SELECT 1'')"
    by (simp add: demo_eval st1_def c_def trim_def is_space_def)
  have h2: "runSingleQuery demo_sys demo_credentials ''CREATE TABLE t (x INT)'' open_driver
      = (Inr [], st1 ''CREATE TABLE t (x INT)'')"
    by (simp add: demo_eval st1_def c_def trim_def is_space_def)
  have h3: "run_statement demo_sys demo_credentials None ''SELECT bad'' open_driver = (r', st2')"
    by (simp add: demo_eval st1_def st2'_def r'_def c_def trim_def is_space_def)
  have e: "error r'" by (simp add: r'_def)
  note t1 = result_classification_C5[where ?q0.0 = "''  Select * from t''" and sys = demo_sys
      and cr = demo_credentials and q = "''SELECT 1''" and st = open_driver
      and ?st1.0 = "st1 ''SELECT 1''" and req = None
      and sys' = demo_sys and cr' = demo_credentials and req' = None and q' = "''SELECT bad''"
      and st' = open_driver and r' = r' and ?st2' = st2']
  note t2 = result_classification_C5[where ?q0.0 = "''  Select * from t''" and sys = demo_sys
      and cr = demo_credentials and q = "''CREATE TABLE t (x INT)''" and st = open_driver
      and ?st1.0 = "st1 ''CREATE TABLE t (x INT)''" and req = None
      and sys' = demo_sys and cr' = demo_credentials and req' = None and q' = "''SELECT bad''"
      and st' = open_driver and r' = r' and ?st2' = st2']
  show ?thesis
    using t1 t2 h1 h2 h3 e k
    by (auto simp: result_set_keywords_def r'_def error_text_def)
qed

text \<open>
  Claim C6, as stated, fails. On the concrete runtime the path \<open>quack\<close> does not validate.
  Set under \<open>duckdbPath\<close> while \<open>duckdbCliPath\<close> holds a blank string, it is never validated:
  the resolver reads the environment variable and returns the auto-discovery candidate
  \<open>duckdb\<close>. Set under \<open>duckdbPath\<close> while \<open>duckdbCliPath\<close> holds a path that validates, it
  is not looked at either, and the resolution succeeds.
\<close>

theorem resolve_configured_invalid_C6_counterexample:
  \<open>validateExecutablePath demo_sys ''quack'' fresh_driver
     = (Some (JSError ''Error'' ''DuckDB CLI validation failed. spawn quack ENOENT''),
        fresh_driver\<lparr>trace := [Spawn ''quack'' [''--version'']]\<rparr>)
   \<and> resolveExecutablePath demo_sys
        (demo_credentials\<lparr>duckdbCliPath := JStr '' '', duckdbPath := JStr ''quack''\<rparr>) fresh_driver
     = (Inr ''duckdb'',
        fresh_driver\<lparr>trace := [EnvRead ''DUCKDB_CLI_PATH'', Spawn ''duckdb'' [''--version'']]\<rparr>)
   \<and> resolveExecutablePath demo_sys
        (demo_credentials\<lparr>duckdbCliPath := JStr ''duckdb'', duckdbPath := JStr ''quack''\<rparr>) fresh_driver
     = (Inr ''duckdb'', fresh_driver\<lparr>trace := [Spawn ''duckdb'' [''--version'']]\<rparr>)\<close>
  by (simp add: demo_eval resolver_eval trim_def is_space_def)



text \<open>
  Claim C2, as stated, fails. On the concrete runtime, with read-only mode set on the
  in-memory database, \<open>open\<close> reads the environment variable and runs the version query of
  \<open>duckdb\<close> before it fails with the configuration error; and with a configured executable
  that does not validate it fails with the resolver's error, not the configuration error.
\<close>

theorem open_readonly_memory_C2_counterexample:
  \<open>isReadOnlyEnabled readonly_memory_credentials
   \<and> database readonly_memory_credentials = Some '':memory:''
   \<and> open_connection demo_sys readonly_memory_credentials fresh_driver
       = (Inl (JSError ''Error'' ''Read-only mode is not supported with ":memory:" database.''),
          fresh_driver\<lparr>trace := [EnvRead ''DUCKDB_CLI_PATH'', Spawn ''duckdb'' [''--version'']]\<rparr>)
   \<and> open_connection demo_sys (readonly_memory_credentials\<lparr>duckdbCliPath := JStr ''quack''\<rparr>) fresh_driver
       = (Inl (JSError ''Error''
            (''Invalid "duckdbCliPath" / "duckdbPath": "quack". ''
               @ ''DuckDB CLI validation failed. spawn quack ENOENT'')),
          fresh_driver\<lparr>trace := [Spawn ''quack'' [''--version'']]\<rparr>)\<close>
  by (simp add: demo_eval resolver_eval trim_def is_space_def)

text \<open>
  Claim C2, amended. With read-only mode enabled, the database path equal to \<open>:memory:\<close>
  (after the conversion to an absolute path, in any letter case) and no connection cached,
  \<open>open\<close> runs the executable resolution first: when the resolution fails, \<open>open\<close> fails
  with the resolver's error; when it succeeds, \<open>open\<close> fails with the configuration
  error. Either way \<open>open\<close> fails, the driver is left as the resolution left it (nothing
  is checked or created for the database) and no connection is cached.
\<close>

theorem open_readonly_memory_C2:
  assumes \<open>conn st = None\<close> and \<open>isReadOnlyEnabled cr\<close>
    and \<open>toLowerCase (getDatabase sys cr) = '':memory:''\<close>
  shows \<open>open_connection sys cr st =
           (case resolveExecutablePath sys cr st of
              (Inl e, st1) \<Rightarrow> (Inl e, st1)
            | (Inr exe, st1) \<Rightarrow>
                (Inl (JSError ''Error'' ''Read-only mode is not supported with ":memory:" database.''),
                 st1))
         \<and> isl (fst (open_connection sys cr st))
         \<and> snd (open_connection sys cr st) = snd (resolveExecutablePath sys cr st)
         \<and> conn (snd (open_connection sys cr st)) = None\<close>
proof -
  obtain r st1 where r: "resolveExecutablePath sys cr st = (r, st1)"
    by (cases "resolveExecutablePath sys cr st")
  have c: "conn st1 = None" using resolve_conn[OF r] assms(1) by simp
  show ?thesis using assms r c
    by (cases r) (simp_all add: open_connection_def Let_def)
qed

theorem open_readonly_memory_C2_witness:
  \<open>open_connection demo_sys readonly_memory_credentials fresh_driver
       = (Inl (JSError ''Error'' ''Read-only mode is not supported with ":memory:" database.''),
          fresh_driver\<lparr>trace := [EnvRead ''DUCKDB_CLI_PATH'', Spawn ''duckdb'' [''--version'']]\<rparr>)
   \<and> conn (snd (open_connection demo_sys readonly_memory_credentials fresh_driver)) = None\<close>
proof -
  have h1: "conn fresh_driver = None" by (simp add: fresh_driver_def)
  have h2: "isReadOnlyEnabled readonly_memory_credentials"
    by (simp add: demo_eval resolver_eval trim_def is_space_def)
  have h3: "toLowerCase (getDatabase demo_sys readonly_memory_credentials) = '':memory:''"
    by (simp add: demo_eval resolver_eval)
  have r: "resolveExecutablePath demo_sys readonly_memory_credentials fresh_driver
      = (Inr ''duckdb'', fresh_driver\<lparr>trace := [EnvRead ''DUCKDB_CLI_PATH'', Spawn ''duckdb'' [''--version'']]\<rparr>)"
    by (simp add: demo_eval resolver_eval trim_def is_space_def)
  show ?thesis
    using open_readonly_memory_C2[OF h1 h2 h3] by (simp add: r h1)
qed

text \<open>
  Claim C4. Every script is a sequence of chunks separated by its top-level \<open>;\<close>, each chunk
  made of ordinary characters and of whole regions (a single-quoted or double-quoted region
  up to the closing quote that is not doubled, a line comment from \<open>--\<close> to the end of the
  line, a block comment from \<open>/*\<close> to the first \<open>*/\<close>), the last chunk possibly ending inside
  a region that is never closed. The statements of the script are exactly its chunks,
  trimmed, the empty ones dropped: a \<open>;\<close> inside a region, being inside a chunk, ends no
  statement. A text that starts with a region and has no top-level \<open>;\<close> after it is one
  statement, whatever the region contains. A block comment that is never closed takes the
  rest of the input into the final statement, together with the text before it since the
  last top-level \<open>;\<close>. At each step, a \<open>;\<close> read inside a region is appended to the
  accumulator. The script \<open>SELECT ';' ; SELECT 1;\<close> splits into two statements.
\<close>

theorem split_regions_C4:
  "splitSqlStatements (''SELECT '' @ [CHR 0x27, CHR '';'', CHR 0x27] @ '' ; SELECT 1;'')
     = [''SELECT '' @ [CHR 0x27, CHR '';'', CHR 0x27], ''SELECT 1'']
   \<and> (\<exists>segs lst b. list_all (chunk True) segs \<and> chunk b lst \<and> script = script_of (segs @ [lst]))
   \<and> (list_all (chunk True) segs \<and> chunk b lst \<longrightarrow>
        splitSqlStatements (script_of (segs @ [lst])) = filter (\<lambda>s. s \<noteq> []) (map trim (segs @ [lst])))
   \<and> (is_quote q \<and> quoted_body q body1 \<and> \<not> starts_with q t1 \<and> chunk b1 t1 \<longrightarrow>
        splitSqlStatements ([q] @ body1 @ [q] @ t1) = [trim ([q] @ body1 @ [q] @ t1)])
   \<and> (CHR 0x0A \<notin> set body2 \<and> chunk b2 t2 \<longrightarrow>
        splitSqlStatements (''--'' @ body2 @ [CHR 0x0A] @ t2) = [trim (''--'' @ body2 @ [CHR 0x0A] @ t2)])
   \<and> (\<not> has_pair (CHR ''*'') (CHR ''/'') body3 \<and> chunk b3 t3 \<longrightarrow>
        splitSqlStatements (''/*'' @ body3 @ ''*/'' @ t3) = [trim (''/*'' @ body3 @ ''*/'' @ t3)])
   \<and> (list_all (chunk True) segs4 \<and> chunk True pre4 \<and> \<not> has_pair (CHR ''*'') (CHR ''/'') body4 \<longrightarrow>
        splitSqlStatements (script_of (segs4 @ [pre4 @ ''/*'' @ body4]))
          = filter (\<lambda>s. s \<noteq> []) (map trim segs4) @ [trim (pre4 @ ''/*'' @ body4)])
   \<and> (\<not> normal_mode s0 \<longrightarrow>
        scan s0 (CHR '';'' # rest) = scan (s0\<lparr>current := current s0 @ '';''\<rparr>) rest)"
proof -
  have "splitSqlStatements (''SELECT '' @ [CHR 0x27, CHR '';'', CHR 0x27] @ '' ; SELECT 1;'')
     = [''SELECT '' @ [CHR 0x27, CHR '';'', CHR 0x27], ''SELECT 1'']"
    by (simp add: splitSqlStatements_def finish_def scan_init_def trim_def is_space_def scan.simps)
  then show ?thesis
    using script_decomposition[of script] split_script_of[of segs b lst]
      split_quoted_region[of q body1 t1 b1] split_line_comment[of body2 b2 t2]
      split_block_comment[of body3 b3 t3] split_open_block_comment[of segs4 pre4 body4]
      scan_semicolon_in_region[of s0 rest]
    by blast
qed

theorem split_regions_C4_witness:
  "splitSqlStatements (''SELECT '' @ [CHR 0x27] @ ''a;b'' @ [CHR 0x27] @ '' x; SELECT '' @ [CHR 0x22]
       @ ''c;d'' @ [CHR 0x22] @ '' -- e;f'' @ [CHR 0x0A] @ ''/* g;h */; SELECT 1'')
     = [''SELECT '' @ [CHR 0x27] @ ''a;b'' @ [CHR 0x27] @ '' x'',
        ''SELECT '' @ [CHR 0x22] @ ''c;d'' @ [CHR 0x22] @ '' -- e;f'' @ [CHR 0x0A] @ ''/* g;h */'',
        ''SELECT 1'']
   \<and> splitSqlStatements ([CHR 0x22] @ ''a;b'' @ [CHR 0x22] @ '' SELECT 1'')
       = [[CHR 0x22] @ ''a;b'' @ [CHR 0x22] @ '' SELECT 1'']
   \<and> splitSqlStatements (''-- a;b'' @ [CHR 0x0A] @ '' SELECT 1'') = [''-- a;b'' @ [CHR 0x0A] @ '' SELECT 1'']
   \<and> splitSqlStatements ''/* a;b */ SELECT 1'' = [''/* a;b */ SELECT 1'']
   \<and> splitSqlStatements ('' SELECT 1; SELECT 1/* ; SELECT 2; '' @ [CHR 0x27])
       = [''SELECT 1'', ''SELECT 1/* ; SELECT 2; '' @ [CHR 0x27]]
   \<and> scan (scan_init\<lparr>inSingleQuote := True\<rparr>) (CHR '';'' # '' x'')
       = scan (scan_init\<lparr>inSingleQuote := True, current := '';''\<rparr>) '' x''"
  using split_regions_C4[where segs = "[''SELECT '' @ [CHR 0x27] @ ''a;b'' @ [CHR 0x27] @ '' x'',
        '' SELECT '' @ [CHR 0x22] @ ''c;d'' @ [CHR 0x22] @ '' '' @ ''--'' @ '' e;f'' @ [CHR 0x0A]
          @ ''/*'' @ '' g;h '' @ ''*/'' @ []]"
      and b = True and lst = "'' SELECT 1''"
      and q = "CHR 0x22" and ?body1.0 = "''a;b''" and ?t1.0 = "'' SELECT 1''" and ?b1.0 = True
      and ?body2.0 = "'' a;b''" and ?t2.0 = "'' SELECT 1''" and ?b2.0 = True
      and ?body3.0 = "'' a;b ''" and ?t3.0 = "'' SELECT 1''" and ?b3.0 = True
      and ?segs4.0 = "['' SELECT 1'']" and ?pre4.0 = "'' SELECT 1''"
      and ?body4.0 = "'' ; SELECT 2; '' @ [CHR 0x27]"
      and ?s0.0 = "scan_init\<lparr>inSingleQuote := True\<rparr>" and rest = "'' x''"]
    chunk_select_1 chunk_example_quoted chunk_example_regions
  by (simp add: script_of_def is_quote_def scan_init_def normal_mode_def trim_def is_space_def)

text \<open>
  Claim C7. \<open>split "SELECT 1"\<close> is the one statement \<open>SELECT 1\<close>; every statement returned
  is non-empty and trimmed. Every script is a sequence of chunks separated by its top-level
  \<open>;\<close>; its statements are the chunks, trimmed, the empty ones dropped, in the order of the
  script; when the chunk after the last top-level \<open>;\<close> trims to something non-empty, that
  trimmed text is the final statement, after the statements of the text before that \<open>;\<close>.
  A \<open>;\<close> that follows a closed chunk cuts the script in two, the statements of the first
  part coming before those of the second. A text without any \<open>;\<close> that trims to something
  non-empty is one statement.
\<close>

theorem split_tail_C7:
  "splitSqlStatements ''SELECT 1'' = [''SELECT 1'']
   \<and> (\<forall>x\<in>set (splitSqlStatements script). x \<noteq> [] \<and> trim x = x)
   \<and> (\<exists>segs lst b. list_all (chunk True) segs \<and> chunk b lst \<and> script = script_of (segs @ [lst]))
   \<and> (list_all (chunk True) segs \<and> chunk b lst \<and> trim lst \<noteq> [] \<longrightarrow>
        splitSqlStatements (script_of (segs @ [lst])) = splitSqlStatements (script_of segs) @ [trim lst])
   \<and> (list_all (chunk True) segs \<and> chunk b lst \<longrightarrow>
        splitSqlStatements (script_of (segs @ [lst])) = filter (\<lambda>s. s \<noteq> []) (map trim (segs @ [lst])))
   \<and> (chunk True pre \<longrightarrow>
        splitSqlStatements (pre @ '';'' @ t) = splitSqlStatements pre @ splitSqlStatements t)
   \<and> (normal_mode (scan scan_init pre1) \<longrightarrow>
        splitSqlStatements (pre1 @ '';'' @ t1) = splitSqlStatements pre1 @ splitSqlStatements t1)
   \<and> (CHR '';'' \<notin> set u \<and> trim u \<noteq> [] \<longrightarrow> splitSqlStatements u = [trim u])"
proof -
  have a: "splitSqlStatements ''SELECT 1'' = [''SELECT 1'']"
    by (simp add: splitSqlStatements_def finish_def scan_init_def trim_def is_space_def scan.simps)
  have b: "\<forall>x\<in>set (splitSqlStatements script). x \<noteq> [] \<and> trim x = x"
    using split_stmts_ok[of script] by (simp add: stmts_ok_def)
  have c: "normal_mode (scan scan_init pre1) \<longrightarrow>
        splitSqlStatements (pre1 @ '';'' @ t1) = splitSqlStatements pre1 @ splitSqlStatements t1"
    using split_at_top_level_semicolon[of pre1 t1] by simp
  have d: "chunk True pre \<longrightarrow>
        splitSqlStatements (pre @ '';'' @ t) = splitSqlStatements pre @ splitSqlStatements t"
    using split_closed_chunk_then[of pre t] by simp
  have e: "CHR '';'' \<notin> set u \<and> trim u \<noteq> [] \<longrightarrow> splitSqlStatements u = [trim u]"
    using split_no_semicolon[of u] by simp
  from a b c d e show ?thesis
    using script_decomposition[of script] split_script_of[of segs b lst]
      split_script_of_tail[of segs b lst]
    by blast
qed

theorem split_tail_C7_witness:
  "splitSqlStatements '' a ;; b '' = [''a'', ''b''] \<and> trim ''a'' = ''a'' \<and> trim ''b'' = ''b''
   \<and> splitSqlStatements (''SELECT '' @ [CHR 0x27] @ ''a;b'' @ [CHR 0x27] @ '' x; SELECT 1'')
       = splitSqlStatements (''SELECT '' @ [CHR 0x27] @ ''a;b'' @ [CHR 0x27] @ '' x'') @ [''SELECT 1'']
   \<and> splitSqlStatements (''SELECT '' @ [CHR 0x27] @ ''a;b'' @ [CHR 0x27] @ '' x; SELECT 1'')
       = [''SELECT '' @ [CHR 0x27] @ ''a;b'' @ [CHR 0x27] @ '' x'', ''SELECT 1'']
   \<and> splitSqlStatements ('' SELECT 1; SELECT 2 '') = [''SELECT 1'', ''SELECT 2'']
   \<and> splitSqlStatements ''SELECT a, b'' = [''SELECT a, b'']"
  using split_tail_C7[where script = "'' a ;; b ''"
      and segs = "[''SELECT '' @ [CHR 0x27] @ ''a;b'' @ [CHR 0x27] @ '' x'']"
      and b = True and lst = "'' SELECT 1''"
      and pre = "'' SELECT 1''" and t = "'' SELECT 2 ''"
      and ?pre1.0 = "'' SELECT 1''" and ?t1.0 = "'' SELECT 2 ''"
      and u = "''SELECT a, b''"]
    chunk_select_1 chunk_example_quoted
  by (simp add: script_of_def split_eval normal_mode_def)

end
